theory Spec2Isabelle
  imports Complex_Main "HOL-Library.AList"
begin

section \<open>Front end: the selected-methods list (App.jsx)\<close>

text \<open>
  \<^verbatim>\<open>
  const handleMethodToggle = (method) => {
    setSelectedMethods((prev) =>
      prev.includes(method)
        ? prev.filter((m) => m !== method)
        : [...prev, method]
    );
  };
  \<close>
  The state is a JavaScript array of method identifiers (strings). The handler is the
  state update it passes to \<open>setSelectedMethods\<close>: a function from the previous list
  to the next one.
\<close>

definition handleMethodToggle :: "string \<Rightarrow> string list \<Rightarrow> string list" where
  "handleMethodToggle method prev =
     (if method \<in> set prev
      then filter (\<lambda>m. m \<noteq> method) prev
      else prev @ [method])"

text \<open>The initial state of \<open>selectedMethods\<close> in \<open>App\<close>.\<close>

definition initialSelectedMethods :: "string list" where
  "initialSelectedMethods = [''trapezoidal'', ''midpoint'', ''simpson'']"

text \<open>The lists the state can hold: the initial one, and any list a toggle makes of one.\<close>

inductive reachableMethods :: "string list \<Rightarrow> bool" where
  reach_init: "reachableMethods initialSelectedMethods"
| reach_toggle: "reachableMethods prev \<Longrightarrow> reachableMethods (handleMethodToggle method prev)"


section \<open>Front end: the interval-count input (MethodControls)\<close>

subsection \<open>The built-ins \<open>parseInt\<close> and \<open>Number.prototype.toString\<close>\<close>

text \<open>
  \<open>parseInt(string)\<close> without a radix, after ECMAScript: leading white space is
  skipped, one sign is read, a prefix \<open>0x\<close> or \<open>0X\<close> selects radix 16 (radix 10
  otherwise), and the longest prefix of digits of that radix is the value; with no digit
  the result is \<open>NaN\<close>, here \<open>None\<close>. The value is kept as a mathematical integer:
  the handlers only compare it with 1 and 1024, and every integer they let through is
  below \<open>2^53\<close>, where a JavaScript number is exact. A string is a list of 8-bit
  characters; the white space characters are those of that range.
\<close>

definition isWhiteSpace :: "char \<Rightarrow> bool" where
  "isWhiteSpace c = ((of_char c :: nat) \<in> {9, 10, 11, 12, 13, 32, 160})"

definition digitValue :: "char \<Rightarrow> nat option" where
  "digitValue c =
     (let k = (of_char c :: nat) in
      if 48 \<le> k \<and> k \<le> 57 then Some (k - 48)
      else if 97 \<le> k \<and> k \<le> 122 then Some (k - 87)
      else if 65 \<le> k \<and> k \<le> 90 then Some (k - 55)
      else None)"

definition isRadixDigit :: "nat \<Rightarrow> char \<Rightarrow> bool" where
  "isRadixDigit r c = (case digitValue c of None \<Rightarrow> False | Some d \<Rightarrow> d < r)"

definition radixValue :: "nat \<Rightarrow> string \<Rightarrow> nat" where
  "radixValue r z = foldl (\<lambda>acc c. acc * r + the (digitValue c)) 0 z"

definition parseInt :: "string \<Rightarrow> int option" where
  "parseInt inputString =
     (let s = dropWhile isWhiteSpace inputString;
          sign = (if take 1 s = ''-'' then - 1 else 1 :: int);
          s' = (if take 1 s = ''+'' \<or> take 1 s = ''-'' then drop 1 s else s);
          hex = (take 2 s' = ''0x'' \<or> take 2 s' = ''0X'');
          r = (if hex then 16 else 10);
          s'' = (if hex then drop 2 s' else s');
          z = takeWhile (isRadixDigit r) s''
      in if z = [] then None else Some (sign * int (radixValue r z)))"

fun decimalDigits :: "nat \<Rightarrow> string" where
  "decimalDigits k =
     (if k < 10 then [char_of (48 + k)]
      else decimalDigits (k div 10) @ [char_of (48 + k mod 10)])"

definition toString :: "int \<Rightarrow> string" where
  "toString k = (if k < 0 then CHR ''-'' # decimalDigits (nat (- k)) else decimalDigits (nat k))"

subsection \<open>The handlers\<close>

text \<open>
  \<^verbatim>\<open>
  const handleCustomNChange = (e) => {
      const value = e.target.value;
      setCustomN(value);
      const num = parseInt(value);
      if (!isNaN(num) && num >= 1 && num <= 1024) {
          onNChange(num);
      }
  };
  const handleCustomNBlur = () => {
      let num = parseInt(customN);
      if (isNaN(num) || num < 1) num = 1;
      if (num > 1024) num = 1024;
      setCustomN(num.toString());
      onNChange(num);
  };
  \<close>
  A handler's effect is the new text of the field (\<open>setCustomN\<close>) and the value it
  forwards through \<open>onNChange\<close>, if it forwards one.
\<close>

record handled =
  customN :: string
  forwarded :: "int option"

definition handleCustomNChange :: "string \<Rightarrow> handled" where
  "handleCustomNChange value =
     (case parseInt value of
        None \<Rightarrow> \<lparr>customN = value, forwarded = None\<rparr>
      | Some num \<Rightarrow>
          if num \<ge> 1 \<and> num \<le> 1024
          then \<lparr>customN = value, forwarded = Some num\<rparr>
          else \<lparr>customN = value, forwarded = None\<rparr>)"

definition handleCustomNBlur :: "string \<Rightarrow> handled" where
  "handleCustomNBlur customN0 =
     (let num = parseInt customN0;
          num1 = (case num of None \<Rightarrow> 1 | Some k \<Rightarrow> if k < 1 then 1 else k);
          num2 = (if num1 > 1024 then 1024 else num1)
      in \<lparr>customN = toString num2, forwarded = Some num2\<rparr>)"

text \<open>\<open>App\<close> passes \<open>setN\<close> as \<open>onNChange\<close>: a forwarded value replaces \<open>n\<close>.\<close>

definition onNChange :: "int \<Rightarrow> handled \<Rightarrow> int" where
  "onNChange n r = (case forwarded r of None \<Rightarrow> n | Some num \<Rightarrow> num)"


section \<open>Front end: normalising an expression (MathCalculator)\<close>

text \<open>
  \<^verbatim>\<open>
  const normalizeForBackend = (expr) => {
      if (!expr) return '';
      let result = expr
          .replace(/\^/g, '**'); // ^ to **
      result = result.replace(/(\d)([a-zA-Z])/g, '$1*$2'); // 2x -> 2*x
      result = result.replace(/([a-zA-Z])(\d)(?![*])/g, (match, letter, digit, offset, str) => {
          if (offset >= 2 && str.slice(offset - 2, offset) === '**') {
              return match; // Don't change x**2
          }
          return `${letter}*${digit}`;
      });
      result = result.replace(/\)\(/g, ')*('); // )( -> )*(
      result = result.replace(/(\d)\(/g, '$1*('); // 2( -> 2*(
      result = result.replace(/\)(\d)/g, ')*$1'); // )2 -> )*2
      return result;
  };
  \<close>
  A global \<open>replace\<close> scans the string from left to right and resumes after each match.
  The classes \<open>\d\<close> and \<open>[a-zA-Z]\<close> are the ASCII digits and letters; a character
  outside ASCII is in neither class, whatever its code, so the 8-bit characters of a
  \<open>string\<close> stand for the code units of a JavaScript string.
\<close>

definition isDigit :: "char \<Rightarrow> bool" where
  "isDigit c = (48 \<le> (of_char c :: nat) \<and> (of_char c :: nat) \<le> 57)"

definition isLetter :: "char \<Rightarrow> bool" where
  "isLetter c = ((97 \<le> (of_char c :: nat) \<and> (of_char c :: nat) \<le> 122)
                 \<or> (65 \<le> (of_char c :: nat) \<and> (of_char c :: nat) \<le> 90))"

text \<open>\<open>.replace(/\^/g, '**')\<close>\<close>

definition replaceCaret :: "string \<Rightarrow> string" where
  "replaceCaret s = concat (map (\<lambda>c. if c = CHR ''^'' then ''**'' else [c]) s)"

text \<open>
  \<open>.replace(/(A)(B)/g, '$1*$2')\<close> for two character classes \<open>A\<close> and \<open>B\<close>: the second,
  fourth, fifth and sixth replacement of the function.
\<close>

fun insertStar :: "(char \<Rightarrow> bool) \<Rightarrow> (char \<Rightarrow> bool) \<Rightarrow> string \<Rightarrow> string" where
  "insertStar A B (c # d # cs) =
     (if A c \<and> B d then c # CHR ''*'' # d # insertStar A B cs
      else c # insertStar A B (d # cs))"
| "insertStar A B cs = cs"

text \<open>
  The third replacement. \<open>pre\<close> is the text before the current position, so that
  \<open>offset\<close> is its length and \<open>str.slice(offset - 2, offset)\<close> its last two characters;
  the lookahead \<open>(?![*])\<close> refuses a match whose digit is followed by a star.
\<close>

definition endsWithPower :: "string \<Rightarrow> bool" where
  "endsWithPower pre = (length pre \<ge> 2 \<and> drop (length pre - 2) pre = ''**'')"

fun letterDigit :: "string \<Rightarrow> string \<Rightarrow> string" where
  "letterDigit pre (c # d # cs) =
     (if isLetter c \<and> isDigit d \<and> take 1 cs \<noteq> ''*''
      then (if endsWithPower pre then [c, d] else [c, CHR ''*'', d]) @ letterDigit (pre @ [c, d]) cs
      else c # letterDigit (pre @ [c]) (d # cs))"
| "letterDigit pre cs = cs"

definition normalizeForBackend :: "string \<Rightarrow> string" where
  "normalizeForBackend expr =
     (if expr = [] then []
      else
        let result = replaceCaret expr;
            result = insertStar isDigit isLetter result;
            result = letterDigit [] result;
            result = insertStar (\<lambda>c. c = CHR '')'') (\<lambda>c. c = CHR ''('') result;
            result = insertStar isDigit (\<lambda>c. c = CHR ''('') result;
            result = insertStar (\<lambda>c. c = CHR '')'') isDigit result
        in result)"


section \<open>Back end: the safe expression parser (Project_Report.md, 4.1)\<close>

text \<open>Python exceptions the back end can raise.\<close>

datatype error = ZeroDivisionError | ValueError | IndexError | InvalidExpressionError

text \<open>
  The syntax trees of Python's \<open>ast\<close> module, as far as expressions of this kind go:
  the binary and unary operator classes, and the expression nodes (numeric and string
  constants, list displays, names, operations, calls, attribute access, subscripts).
  A text that is not an expression parses to statements.
\<close>

datatype operator = Add_op | Sub_op | Mult_op | Div_op | Pow_op | FloorDiv_op | Mod_op

datatype unaryop = USub_op | UAdd_op | Not_op | Invert_op

datatype expr =
    Num real
  | Str string
  | ListLit "expr list"
  | Name string
  | BinOp expr operator expr
  | UnaryOp unaryop expr
  | Call expr "expr list"
  | Attribute expr string
  | Subscript expr expr

datatype parsed = Expression expr | Statement

text \<open>
  \<^verbatim>\<open>
  class SafeExpressionParser:
      ALLOWED_NAMES = {
          'x': None,
          'sin': np.sin, 'cos': np.cos, 'tan': np.tan,
          'exp': np.exp, 'log': np.log, 'sqrt': np.sqrt,
          'abs': np.abs, 'pi': np.pi, 'e': np.e,
      }
      ALLOWED_OPERATORS = {
          ast.Add, ast.Sub, ast.Mult, ast.Div, ast.Pow,
          ast.USub, ast.UAdd,
      }
  \<close>
  The two tables are the source's. A name is bound to nothing (the variable), to a
  function or to a number.
\<close>

datatype allowed = Variable | Function | Constant_value

definition ALLOWED_NAMES :: "(string \<times> allowed) list" where
  "ALLOWED_NAMES =
     [(''x'', Variable),
      (''sin'', Function), (''cos'', Function), (''tan'', Function),
      (''exp'', Function), (''log'', Function), (''sqrt'', Function),
      (''abs'', Function), (''pi'', Constant_value), (''e'', Constant_value)]"

definition ALLOWED_OPERATORS :: "(operator + unaryop) set" where
  "ALLOWED_OPERATORS =
     {Inl Add_op, Inl Sub_op, Inl Mult_op, Inl Div_op, Inl Pow_op, Inr USub_op, Inr UAdd_op}"

text \<open>
  Modelled from the spec: the methods of \<open>SafeExpressionParser\<close> and
  \<open>evaluate_expression\<close> are not in the source (only the two tables are). After the
  spec, section 4.1: the grammar is restricted to numeric literals, the variable \<open>x\<close>,
  the constants \<open>pi\<close> and \<open>e\<close>, the binary operators \<open>+ - * / **\<close>, unary \<open>+ -\<close> and calls
  of the whitelisted functions; anything else is rejected before evaluation, on the
  syntax tree. Python's own parser is a parameter \<open>parse\<close>, which gives no tree for a
  text it cannot parse. The callable that \<open>evaluate_expression\<close> returns is stood for
  by the validated tree.
\<close>

fun validate :: "expr \<Rightarrow> bool" where
  "validate (Num v) = True"
| "validate (Str s) = False"
| "validate (ListLit es) = False"
| "validate (Name n) =
     (map_of ALLOWED_NAMES n = Some Variable \<or> map_of ALLOWED_NAMES n = Some Constant_value)"
| "validate (BinOp l op r) = (Inl op \<in> ALLOWED_OPERATORS \<and> validate l \<and> validate r)"
| "validate (UnaryOp op e) = (Inr op \<in> ALLOWED_OPERATORS \<and> validate e)"
| "validate (Call f args) =
     ((case f of Name n \<Rightarrow> map_of ALLOWED_NAMES n = Some Function | _ \<Rightarrow> False)
      \<and> list_all validate args)"
| "validate (Attribute e a) = False"
| "validate (Subscript e i) = False"

text \<open>
  Modelled from the spec: \<open>evaluate_expression\<close> is not in the source. After the spec,
  sections 4.1 and 6: the text is parsed, the tree is validated, and only a valid tree
  becomes a callable; every other input fails with \<open>InvalidExpressionError\<close>.
\<close>

definition evaluate_expression :: "(string \<Rightarrow> parsed option) \<Rightarrow> string \<Rightarrow> error + expr" where
  "evaluate_expression parse source =
     (case parse source of
        None \<Rightarrow> Inl InvalidExpressionError
      | Some Statement \<Rightarrow> Inl InvalidExpressionError
      | Some (Expression e) \<Rightarrow> if validate e then Inr e else Inl InvalidExpressionError)"


section \<open>Back end: the quadrature rules (Project_Report.md, 4.2)\<close>

text \<open>
  Numbers are real numbers: the rules are modelled in exact arithmetic, not in floating
  point. A callable is a total function on the reals. A subdivision count is a Python
  integer, so it may be zero or negative, and the rules then raise or not as Python does.

  \<open>np.linspace(start, stop, num)\<close>: \<open>num\<close> evenly spaced points from \<open>start\<close> to
  \<open>stop\<close>, both included; a negative \<open>num\<close> raises \<open>ValueError\<close>.
\<close>

definition linspace :: "real \<Rightarrow> real \<Rightarrow> int \<Rightarrow> error + real list" where
  "linspace start stop num =
     (if num < 0 then Inl ValueError
      else if num = 1 then Inr [start]
      else Inr (map (\<lambda>i. start + real i * ((stop - start) / real_of_int (num - 1))) [0..<nat num]))"

text \<open>
  A slice \<open>ys[start:stop:step]\<close> with a positive step: a negative bound counts from the
  end, both bounds are clipped to the length, and the elements at \<open>start\<close>,
  \<open>start + step\<close>, ... below \<open>stop\<close> are taken.
\<close>

definition slice_index :: "nat \<Rightarrow> int \<Rightarrow> nat" where
  "slice_index len i = (if i < 0 then nat (int len + i) else min (nat i) len)"

definition py_slice :: "'a list \<Rightarrow> int \<Rightarrow> int \<Rightarrow> nat \<Rightarrow> 'a list" where
  "py_slice ys start stop step =
     (let lo = slice_index (length ys) start; hi = slice_index (length ys) stop
      in map (\<lambda>i. ys ! i) (filter (\<lambda>i. (i - lo) mod step = 0) [lo..<hi]))"

text \<open>
  \<^verbatim>\<open>
  def trapezoidal_rule(func, a, b, n):
      h = (b - a) / n
      x = np.linspace(a, b, n + 1)
      y = np.array([func(xi) for xi in x])
      result = (h / 2) * (y[0] + 2 * np.sum(y[1:-1]) + y[-1])
      return float(result)
  \<close>
  The division raises \<open>ZeroDivisionError\<close> for \<open>n = 0\<close>, and \<open>y[0]\<close> raises
  \<open>IndexError\<close> on an empty array.
\<close>

definition trapezoidal_rule :: "(real \<Rightarrow> real) \<Rightarrow> real \<Rightarrow> real \<Rightarrow> int \<Rightarrow> error + real" where
  "trapezoidal_rule func a b n =
     (if n = 0 then Inl ZeroDivisionError
      else
        let h = (b - a) / real_of_int n in
        case linspace a b (n + 1) of
          Inl e \<Rightarrow> Inl e
        | Inr x \<Rightarrow>
            let y = map func x in
            if y = [] then Inl IndexError
            else Inr ((h / 2) * (y ! 0 + 2 * sum_list (py_slice y 1 (- 1) 1) + last y)))"

text \<open>
  \<^verbatim>\<open>
  def midpoint_rule(func, a, b, n):
      h = (b - a) / n
      midpoints = np.array([a + (i + 0.5) * h for i in range(n)])
      y = np.array([func(xi) for xi in midpoints])
      result = h * np.sum(y)
      return float(result)
  \<close>
\<close>

definition midpoint_rule :: "(real \<Rightarrow> real) \<Rightarrow> real \<Rightarrow> real \<Rightarrow> int \<Rightarrow> error + real" where
  "midpoint_rule func a b n =
     (if n = 0 then Inl ZeroDivisionError
      else
        let h = (b - a) / real_of_int n;
            midpoints = map (\<lambda>i. a + (real i + 0.5) * h) [0..<nat n];
            y = map func midpoints
        in Inr (h * sum_list y))"

text \<open>
  \<^verbatim>\<open>
  def simpsons_rule(func, a, b, n):
      if n % 2 != 0:
          n += 1  # Simpson's requires even n
      h = (b - a) / n
      x = np.linspace(a, b, n + 1)
      y = np.array([func(xi) for xi in x])
      result = (h / 3) * (y[0] + 4 * np.sum(y[1:-1:2]) +
                          2 * np.sum(y[2:-1:2]) + y[-1])
      return float(result)
  \<close>
  The argument is \<open>n0\<close> here and \<open>n\<close> is the count after the coercion. The function
  returns the approximation only.
\<close>

definition simpsons_rule :: "(real \<Rightarrow> real) \<Rightarrow> real \<Rightarrow> real \<Rightarrow> int \<Rightarrow> error + real" where
  "simpsons_rule func a b n0 =
     (let n = (if n0 mod 2 \<noteq> 0 then n0 + 1 else n0) in
      if n = 0 then Inl ZeroDivisionError
      else
        let h = (b - a) / real_of_int n in
        case linspace a b (n + 1) of
          Inl e \<Rightarrow> Inl e
        | Inr x \<Rightarrow>
            let y = map func x in
            if y = [] then Inl IndexError
            else Inr ((h / 3) * (y ! 0 + 4 * sum_list (py_slice y 1 (- 1) 2)
                                + 2 * sum_list (py_slice y 2 (- 1) 2) + last y)))"


section \<open>Back end: the visualization data (Project_Report.md, 4.3)\<close>

text \<open>
  \<^verbatim>\<open>
  def get_visualization_data(func, a, b, n, method):
      shapes = []
      if method == "trapezoidal":
          for i in range(n):
              shapes.append({
                  "type": "trapezoid",
                  "x0": x_points[i], "x1": x_points[i+1],
                  "y0": func(x0), "y1": func(x1),
              })
      elif method == "midpoint":
          for i in range(n):
              shapes.append({
                  "type": "rectangle",
                  "x0": x0, "x1": x1,
                  "y": func((x0 + x1) / 2),
              })
      elif method == "simpson":
          for i in range(0, n, 2):
              shapes.append({
                  "type": "parabola",
                  "x0": x0, "x1": x1, "x2": x2,
                  "y0": y0, "y1": y1, "y2": y2,
              })
      return {"curve": curve_points, "shapes": shapes}
  \<close>
  The source leaves out how \<open>x_points\<close> and \<open>curve_points\<close> are built and how
  \<open>x0\<close>, \<open>x1\<close>, \<open>x2\<close>, \<open>y0\<close>, \<open>y1\<close>, \<open>y2\<close> are set in each turn of a loop. They are
  parameters here: \<open>x_points\<close> gives the point of an index, \<open>x0\<close>, \<open>x1\<close>, \<open>x2\<close> are
  the points \<open>i\<close>, \<open>i+1\<close>, \<open>i+2\<close>, and \<open>y0\<close>, \<open>y1\<close>, \<open>y2\<close> are the values of \<open>func\<close>
  there. The loops and the branches on \<open>method\<close> are the source's.
\<close>

datatype shape =
    Trapezoid real real real real
  | Rectangle real real real
  | Parabola real real real real real real

record visualization =
  curve :: "(real \<times> real) list"
  shapes :: "shape list"

text \<open>\<open>range(n)\<close> and \<open>range(start, stop, step)\<close> with a positive step.\<close>

definition py_range :: "int \<Rightarrow> nat list" where
  "py_range n = [0..<nat n]"

definition py_range_step :: "nat \<Rightarrow> int \<Rightarrow> nat \<Rightarrow> nat list" where
  "py_range_step start stop step = filter (\<lambda>i. (i - start) mod step = 0) [start..<nat stop]"

definition get_visualization_data ::
  "(nat \<Rightarrow> real) \<Rightarrow> (real \<times> real) list \<Rightarrow> (real \<Rightarrow> real) \<Rightarrow> real \<Rightarrow> real \<Rightarrow> int \<Rightarrow> string
     \<Rightarrow> visualization" where
  "get_visualization_data x_points curve_points func a b n method =
     (let shapes =
        (if method = ''trapezoidal'' then
           map (\<lambda>i. let x0 = x_points i; x1 = x_points (i + 1)
                     in Trapezoid x0 x1 (func x0) (func x1)) (py_range n)
         else if method = ''midpoint'' then
           map (\<lambda>i. let x0 = x_points i; x1 = x_points (i + 1)
                     in Rectangle x0 x1 (func ((x0 + x1) / 2))) (py_range n)
         else if method = ''simpson'' then
           map (\<lambda>i. let x0 = x_points i; x1 = x_points (i + 1); x2 = x_points (i + 2)
                     in Parabola x0 x1 x2 (func x0) (func x1) (func x2)) (py_range_step 0 n 2)
         else [])
      in \<lparr>curve = curve_points, shapes = shapes\<rparr>)"


section \<open>Back end: the convergence analysis (Project_Report.md, 6.1)\<close>

text \<open>
  \<^verbatim>\<open>
  def analyze_convergence(func, a, b, methods, n_values):
      exact_val, exact_err = exact_integral(func, a, b)
      results = {}
      for method in methods:
          method_results = []
          prev_error, prev_n = None, None
          for n in sorted(n_values):
              approx = compute_integral(func, a, b, n, method)
              errors = calculate_errors(approx, exact_val)
              # Calculate EOC
              eoc = None
              if prev_error is not None:
                  eoc = calculate_eoc(prev_error, errors["absolute_error"],
                                     prev_n, n)
              method_results.append({
                  "n": n, "h": (b-a)/n,
                  "approx": approx,
                  "abs_error": errors["absolute_error"],
                  "rel_error": errors["relative_error"],
                  "eoc": eoc,
              })
              prev_error = errors["absolute_error"]
              prev_n = n
          results[method] = method_results
      # Determine winning method
      winner = min(final_errors, key=final_errors.get)
      return {
          "exact_value": exact_val,
          "results": results,
          "winner": winner,
      }
  \<close>
  \<open>exact_integral\<close> is SciPy's adaptive quadrature, a parameter here. The source has
  neither \<open>compute_integral\<close>, \<open>calculate_errors\<close> and \<open>calculate_eoc\<close> nor the lines
  that fill \<open>final_errors\<close>.
\<close>

datatype integration_method = Trapezoidal | Midpoint | Simpson

text \<open>
  Modelled from the spec: \<open>compute_integral\<close> is not in the source. After the spec,
  sections 6 and 9: the method is one of three, dispatched to its rule.
\<close>

fun compute_integral :: "(real \<Rightarrow> real) \<Rightarrow> real \<Rightarrow> real \<Rightarrow> int \<Rightarrow> integration_method \<Rightarrow> error + real" where
  "compute_integral func a b n Trapezoidal = trapezoidal_rule func a b n"
| "compute_integral func a b n Midpoint = midpoint_rule func a b n"
| "compute_integral func a b n Simpson = simpsons_rule func a b n"

text \<open>
  Modelled from the spec: \<open>calculate_errors\<close> is not in the source. After the spec,
  section 4.5: the absolute error is \<open>|approx - exact|\<close> and the relative error is the
  absolute error over \<open>|exact|\<close>, not a finite number (here \<open>None\<close>) when \<open>exact\<close> is 0.
\<close>

record errors =
  absolute_error :: real
  relative_error :: "real option"

definition calculate_errors :: "real \<Rightarrow> real \<Rightarrow> errors" where
  "calculate_errors approx exact =
     \<lparr>absolute_error = \<bar>approx - exact\<bar>,
      relative_error = (if exact = 0 then None else Some (\<bar>approx - exact\<bar> / \<bar>exact\<bar>))\<rparr>"

text \<open>
  Modelled from the spec: \<open>calculate_eoc\<close> is not in the source. After the spec,
  section 4.5: for consecutive errors \<open>E1\<close> at \<open>n1\<close> and \<open>E2\<close> at \<open>n2\<close>, with
  \<open>n2 > n1\<close>, the order is \<open>ln(E1/E2) / ln(n2/n1)\<close>, and it is undefined (\<open>None\<close>) when
  either error is exactly zero. The spec gives no value for \<open>n2 \<le> n1\<close>; what the
  formula makes of it here is not used in any statement below.
\<close>

definition calculate_eoc :: "real \<Rightarrow> real \<Rightarrow> int \<Rightarrow> int \<Rightarrow> real option" where
  "calculate_eoc e1 e2 n1 n2 =
     (if e1 = 0 \<or> e2 = 0 then None
      else Some (ln (e1 / e2) / ln (real_of_int n2 / real_of_int n1)))"

text \<open>An entry of \<open>method_results\<close>; its fields are the keys of the dictionary.\<close>

record error_record =
  rec_n :: int
  rec_h :: real
  rec_approx :: real
  rec_abs_error :: real
  rec_rel_error :: "real option"
  rec_eoc :: "real option"

text \<open>
  The inner loop, over the sorted counts. \<open>prev\<close> holds \<open>prev_error\<close> and \<open>prev_n\<close>,
  which are set together: \<open>None\<close> before the first turn.
\<close>

fun n_loop :: "(real \<Rightarrow> real) \<Rightarrow> real \<Rightarrow> real \<Rightarrow> integration_method \<Rightarrow> real \<Rightarrow> (real \<times> int) option
                  \<Rightarrow> int list \<Rightarrow> error + error_record list" where
  "n_loop func a b method exact_val prev [] = Inr []"
| "n_loop func a b method exact_val prev (n # ns) =
     (case compute_integral func a b n method of
        Inl e \<Rightarrow> Inl e
      | Inr approx \<Rightarrow>
          (let errors = calculate_errors approx exact_val;
               eoc = (case prev of
                        None \<Rightarrow> None
                      | Some (prev_error, prev_n) \<Rightarrow>
                          calculate_eoc prev_error (absolute_error errors) prev_n n)
           in if n = 0 then Inl ZeroDivisionError
              else
                (case n_loop func a b method exact_val (Some (absolute_error errors, n)) ns of
                   Inl e \<Rightarrow> Inl e
                 | Inr method_results \<Rightarrow>
                     Inr (\<lparr>rec_n = n, rec_h = (b - a) / real_of_int n,
                           rec_approx = approx,
                           rec_abs_error = absolute_error errors,
                           rec_rel_error = relative_error errors,
                           rec_eoc = eoc\<rparr> # method_results))))"

text \<open>
  The outer loop. \<open>results\<close> is a dictionary: an association list in insertion order,
  where storing under a key that is present replaces the value in place.
\<close>

fun method_loop :: "(real \<Rightarrow> real) \<Rightarrow> real \<Rightarrow> real \<Rightarrow> real \<Rightarrow> int list \<Rightarrow> integration_method list
                  \<Rightarrow> (integration_method \<times> error_record list) list
                  \<Rightarrow> error + (integration_method \<times> error_record list) list" where
  "method_loop func a b exact_val n_values [] acc = Inr acc"
| "method_loop func a b exact_val n_values (method # methods) acc =
     (case n_loop func a b method exact_val None (sort n_values) of
        Inl e \<Rightarrow> Inl e
      | Inr method_results \<Rightarrow>
          method_loop func a b exact_val n_values methods
            (AList.update method method_results acc))"

text \<open>
  Modelled from the spec: the source uses \<open>final_errors\<close> and does not fill it. After
  the spec, section 4.5: it holds, for each requested method, the absolute error at the
  largest \<open>n\<close>, the last entry of the method's results; reading the last entry of an
  empty list raises \<open>IndexError\<close>.
\<close>

definition final_errors :: "(integration_method \<times> error_record list) list \<Rightarrow> error + (integration_method \<times> real) list" where
  "final_errors res =
     (if \<exists>(method, method_results) \<in> set res. method_results = [] then Inl IndexError
      else Inr (map (\<lambda>(method, method_results). (method, rec_abs_error (last method_results))) res))"

text \<open>
  \<open>min(d, key=d.get)\<close>: the keys are read in insertion order and a later key replaces
  the best one only when its value is strictly smaller; no key raises \<open>ValueError\<close>.
\<close>

fun py_min :: "'a list \<Rightarrow> ('a \<Rightarrow> real) \<Rightarrow> error + 'a" where
  "py_min [] key = Inl ValueError"
| "py_min (x # xs) key = Inr (foldl (\<lambda>best y. if key y < key best then y else best) x xs)"

record analysis =
  exact_value :: real
  results :: "(integration_method \<times> error_record list) list"
  winner :: integration_method

definition analyze_convergence ::
  "((real \<Rightarrow> real) \<Rightarrow> real \<Rightarrow> real \<Rightarrow> real \<times> real) \<Rightarrow> (real \<Rightarrow> real) \<Rightarrow> real \<Rightarrow> real
     \<Rightarrow> integration_method list \<Rightarrow> int list \<Rightarrow> error + analysis" where
  "analyze_convergence exact_integral func a b methods n_values =
     (let (exact_val, exact_err) = exact_integral func a b in
      case method_loop func a b exact_val n_values methods [] of
        Inl e \<Rightarrow> Inl e
      | Inr res \<Rightarrow>
          (case final_errors res of
             Inl e \<Rightarrow> Inl e
           | Inr fe \<Rightarrow>
               (case py_min (map fst fe) (\<lambda>method. the (map_of fe method)) of
                  Inl e \<Rightarrow> Inl e
                | Inr best \<Rightarrow>
                    Inr \<lparr>exact_value = exact_val, results = res, winner = best\<rparr>)))"


section \<open>Notions used in the statements and proofs\<close>

text \<open>An identifier, literal or call outside the grammar occurs somewhere in a tree.\<close>

inductive forbidden :: "expr \<Rightarrow> bool" where
  in_string: "forbidden (Str s)"
| in_list: "forbidden (ListLit es)"
| in_attribute: "forbidden (Attribute e a)"
| in_subscript: "forbidden (Subscript e i)"
| in_name: "n \<notin> fst ` set ALLOWED_NAMES \<Longrightarrow> forbidden (Name n)"
| in_call: "\<not> (\<exists>n \<in> {''sin'', ''cos'', ''tan'', ''exp'', ''log'', ''sqrt'', ''abs''}. f = Name n)
              \<Longrightarrow> forbidden (Call f args)"
| in_left: "forbidden l \<Longrightarrow> forbidden (BinOp l op r)"
| in_right: "forbidden r \<Longrightarrow> forbidden (BinOp l op r)"
| in_operand: "forbidden e \<Longrightarrow> forbidden (UnaryOp op e)"
| in_argument: "a \<in> set args \<Longrightarrow> forbidden a \<Longrightarrow> forbidden (Call f args)"

text \<open>
  The integral of \<open>c1 * x + c0\<close> over \<open>[a, b]\<close>, by its antiderivative
  (\<open>linear_antiderivative_deriv\<close> below).
\<close>

definition linear_antiderivative :: "real \<Rightarrow> real \<Rightarrow> real \<Rightarrow> real" where
  "linear_antiderivative c1 c0 x = c1 * x\<^sup>2 / 2 + c0 * x"

definition linear_integral :: "real \<Rightarrow> real \<Rightarrow> real \<Rightarrow> real \<Rightarrow> real" where
  "linear_integral c1 c0 a b = linear_antiderivative c1 c0 b - linear_antiderivative c1 c0 a"

text \<open>The absolute error of a method at the largest count, read off an analysis.\<close>

definition final_error :: "analysis \<Rightarrow> integration_method \<Rightarrow> real" where
  "final_error res method = rec_abs_error (last (the (map_of (results res) method)))"

text \<open>
  For the normaliser: a string has two adjacent characters of given classes; a string
  has a letter and a digit next to each other that the third replacement would separate;
  a string is another one with stars inserted.
\<close>

fun adjacent :: "(char \<Rightarrow> bool) \<Rightarrow> (char \<Rightarrow> bool) \<Rightarrow> string \<Rightarrow> bool" where
  "adjacent A B (c # d # cs) = ((A c \<and> B d) \<or> adjacent A B (d # cs))"
| "adjacent A B cs = False"

fun unblocked :: "string \<Rightarrow> string \<Rightarrow> bool" where
  "unblocked pre (c # d # cs) =
     ((isLetter c \<and> isDigit d \<and> take 1 cs \<noteq> ''*'' \<and> \<not> endsWithPower pre)
      \<or> unblocked (pre @ [c]) (d # cs))"
| "unblocked pre cs = False"

inductive starred :: "string \<Rightarrow> string \<Rightarrow> bool" where
  starred_Nil: "starred [] []"
| starred_keep: "starred t t' \<Longrightarrow> starred (c # t) (c # t')"
| starred_star: "starred t t' \<Longrightarrow> starred t (CHR ''*'' # t')"

definition endsWithStar :: "string \<Rightarrow> bool" where
  "endsWithStar pre = (pre \<noteq> [] \<and> last pre = CHR ''*'')"

definition starFree :: "(char \<Rightarrow> bool) \<Rightarrow> bool" where
  "starFree A = (\<not> A (CHR ''*''))"


section \<open>Properties of the front end\<close>

text \<open>
  C10. Toggling a method twice gives a list with the members of the first one: a toggle
  removes the method exactly when it is present and appends it once otherwise. The
  toggled method occurs at most once afterwards, a toggle keeps a duplicate-free list
  duplicate-free, and so no list the state can hold (from the initial one, by toggles)
  names a method twice.
\<close>

theorem handleMethodToggle_involution:
  "set (handleMethodToggle m (handleMethodToggle m prev)) = set prev
   \<and> (m \<in> set prev \<longrightarrow> handleMethodToggle m prev = removeAll m prev)
   \<and> (m \<notin> set prev \<longrightarrow> handleMethodToggle m prev = prev @ [m])
   \<and> count_list (handleMethodToggle m prev) m \<le> 1
   \<and> (distinct prev \<longrightarrow> distinct (handleMethodToggle m prev))
   \<and> (reachableMethods prev \<longrightarrow> distinct prev)"
proof -
  have twice: "set (handleMethodToggle m (handleMethodToggle m prev)) = set prev"
    by (auto simp: handleMethodToggle_def)
  have rem: "filter (\<lambda>x. x \<noteq> m) prev = removeAll m prev"
    by (induction prev) auto
  have cnt: "count_list (handleMethodToggle m prev) m \<le> 1"
    by (simp add: handleMethodToggle_def rem count_list_0_iff)
  have dist: "distinct xs \<Longrightarrow> distinct (handleMethodToggle k xs)" for k xs
    by (simp add: handleMethodToggle_def)
  have reach: "reachableMethods xs \<Longrightarrow> distinct xs" for xs
    by (induction rule: reachableMethods.induct)
       (simp_all add: initialSelectedMethods_def dist)
  show ?thesis
    using twice cnt dist reach by (simp add: handleMethodToggle_def rem)
qed

theorem handleMethodToggle_involution_witness:
  "''midpoint'' \<in> set initialSelectedMethods
   \<and> ''romberg'' \<notin> set initialSelectedMethods
   \<and> distinct initialSelectedMethods
   \<and> reachableMethods initialSelectedMethods
   \<and> handleMethodToggle ''midpoint'' initialSelectedMethods = [''trapezoidal'', ''simpson'']
   \<and> handleMethodToggle ''romberg'' initialSelectedMethods
       = [''trapezoidal'', ''midpoint'', ''simpson'', ''romberg'']
   \<and> distinct (handleMethodToggle ''midpoint'' initialSelectedMethods)"
  using handleMethodToggle_involution [of "''midpoint''" initialSelectedMethods]
        handleMethodToggle_involution [of "''romberg''" initialSelectedMethods]
        reach_init
  by (simp add: initialSelectedMethods_def)

text \<open>
  C9. The interval-count control forwards only counts between 1 and 1024. While typing
  (\<open>handleCustomNChange\<close>) a value is forwarded only if the text parses to an integer
  in that range, and then it is that integer; on blur (\<open>handleCustomNBlur\<close>) a value is
  always forwarded, and it is the parsed integer clamped into the range, 1 when the text
  is not numeric. So \<open>n\<close> stays in the range under both handlers.
\<close>

theorem customN_forwarded_in_range:
  "(forwarded (handleCustomNChange v) = Some num
      \<longrightarrow> parseInt v = Some num \<and> 1 \<le> num \<and> num \<le> 1024)
   \<and> (\<exists>k. forwarded (handleCustomNBlur c) = Some k \<and> 1 \<le> k \<and> k \<le> 1024
          \<and> k = (case parseInt c of None \<Rightarrow> 1 | Some j \<Rightarrow> max 1 (min 1024 j)))
   \<and> (1 \<le> n \<and> n \<le> 1024
      \<longrightarrow> 1 \<le> onNChange n (handleCustomNChange v) \<and> onNChange n (handleCustomNChange v) \<le> 1024
        \<and> 1 \<le> onNChange n (handleCustomNBlur c) \<and> onNChange n (handleCustomNBlur c) \<le> 1024)"
  by (auto simp: handleCustomNChange_def handleCustomNBlur_def onNChange_def Let_def
           split: option.splits if_splits)

theorem customN_forwarded_in_range_witness:
  "forwarded (handleCustomNChange ''512'') = Some 512
   \<and> parseInt ''512'' = Some 512
   \<and> forwarded (handleCustomNChange ''0'') = None
   \<and> forwarded (handleCustomNBlur ''5000'') = Some 1024
   \<and> forwarded (handleCustomNBlur ''abc'') = Some 1
   \<and> (1::int) \<le> 64 \<and> (64::int) \<le> 1024
   \<and> onNChange 64 (handleCustomNChange ''512'') = 512
   \<and> onNChange 64 (handleCustomNBlur ''5000'') = 1024"
  using customN_forwarded_in_range [of "''512''" 512 "''5000''" 64]
        customN_forwarded_in_range [of "''0''" 0 "''abc''" 64]
  by (simp add: handleCustomNChange_def handleCustomNBlur_def onNChange_def parseInt_def
        isWhiteSpace_def isRadixDigit_def digitValue_def radixValue_def Let_def)
section \<open>Properties of the normaliser\<close>

lemma class_facts:
  "isDigit c \<Longrightarrow> \<not> isLetter c" "isLetter c \<Longrightarrow> \<not> isDigit c"
  "isDigit c \<Longrightarrow> c \<noteq> CHR ''*''" "isLetter c \<Longrightarrow> c \<noteq> CHR ''*''"
  "isDigit c \<Longrightarrow> c \<noteq> CHR ''(''" "isDigit c \<Longrightarrow> c \<noteq> CHR '')''"
  by (auto simp: isDigit_def isLetter_def)

lemma starFree_classes:
  "starFree isDigit" "starFree isLetter" "starFree (\<lambda>c. c = CHR ''('')" "starFree (\<lambda>c. c = CHR '')'')"
  by (auto simp: starFree_def isDigit_def isLetter_def)

lemma endsWithPower_snoc: "endsWithPower (pre @ [c]) = (c = CHR ''*'' \<and> endsWithStar pre)"
  by (cases pre rule: rev_cases) (auto simp: endsWithPower_def endsWithStar_def)

lemma endsWithPower_star: "endsWithPower pre \<Longrightarrow> endsWithStar pre"
  by (cases pre rule: rev_cases) (auto simp: endsWithPower_def endsWithStar_def)

lemma endsWithStar_snoc: "endsWithStar (pre @ [c]) = (c = CHR ''*'')"
  by (simp add: endsWithStar_def)

text \<open>Sliding forms: each function decides at every adjacent pair on its own.\<close>

lemma insertStar_head: "\<exists>r. insertStar A B (d # cs) = d # r"
  by (cases cs) auto

lemma insertStar_slide:
  assumes "\<And>c. B c \<Longrightarrow> \<not> A c"
  shows "insertStar A B (c # d # cs) =
           c # (if A c \<and> B d then ''*'' else []) @ insertStar A B (d # cs)"
proof (cases "A c \<and> B d")
  case True
  then have "\<not> A d" using assms by simp
  then have "insertStar A B (d # cs) = d # insertStar A B cs"
    by (cases cs) auto
  then show ?thesis using True by simp
next
  case False
  then show ?thesis by auto
qed

lemma letterDigit_head: "\<exists>r. letterDigit pre (d # cs) = d # r"
  by (cases cs) auto

lemma letterDigit_slide:
  "letterDigit pre (c # d # cs) =
     c # (if isLetter c \<and> isDigit d \<and> take 1 cs \<noteq> ''*'' \<and> \<not> endsWithPower pre then ''*'' else [])
       @ letterDigit (pre @ [c]) (d # cs)"
proof (cases "isLetter c \<and> isDigit d \<and> take 1 cs \<noteq> ''*''")
  case True
  then have "\<not> isLetter d" using class_facts by simp
  then have "letterDigit (pre @ [c]) (d # cs) = d # letterDigit (pre @ [c, d]) cs"
    by (cases cs) auto
  then show ?thesis using True by simp
next
  case False
  then show ?thesis by auto
qed

lemma adjacent_Cons:
  "adjacent A B (c # t) = ((\<exists>d r. t = d # r \<and> A c \<and> B d) \<or> adjacent A B t)"
  by (cases t) auto

lemma unblocked_Cons:
  "unblocked pre (c # t) =
     ((\<exists>d r. t = d # r \<and> isLetter c \<and> isDigit d \<and> take 1 r \<noteq> ''*'' \<and> \<not> endsWithPower pre)
      \<or> unblocked (pre @ [c]) t)"
  by (cases t) auto

subsection \<open>Inserted stars\<close>

lemma starred_refl: "starred t t"
  by (induction t) (auto intro: starred.intros)

lemma starred_insertStar: "starred t (insertStar A B t)"
  by (induction A B t rule: insertStar.induct) (auto intro: starred.intros starred_refl)

lemma starred_letterDigit: "starred t (letterDigit pre t)"
  by (induction pre t rule: letterDigit.induct) (auto intro: starred.intros starred_refl)

lemma starred_set: "starred t t' \<Longrightarrow> set t' \<subseteq> insert (CHR ''*'') (set t)"
  by (induction rule: starred.induct) auto

lemma starred_caret: "starred t t' \<Longrightarrow> CHR ''^'' \<notin> set t \<Longrightarrow> CHR ''^'' \<notin> set t'"
  using starred_set by fastforce

lemma starred_head:
  assumes "starred t (d # r)" "d \<noteq> CHR ''*''"
  shows "\<exists>t0. t = d # t0 \<and> starred t0 r"
  using assms by (cases rule: starred.cases) auto

lemma starred_star_head:
  "starred (CHR ''*'' # t) t' \<Longrightarrow> take 1 t' = ''*''"
  by (induction "CHR ''*'' # t" t' rule: starred.induct) auto

lemma starred_adjacent:
  assumes "starred t t'" "\<not> adjacent A B t" "starFree A" "starFree B"
  shows "\<not> adjacent A B t'"
  using assms
proof (induction rule: starred.induct)
  case starred_Nil
  then show ?case by simp
next
  case (starred_keep t t' c)
  have rest: "\<not> adjacent A B t'"
    using starred_keep by (simp add: adjacent_Cons)
  have "\<not> (A c \<and> B d)" if t': "t' = d # r" for d r
  proof
    assume cd: "A c \<and> B d"
    then have "d \<noteq> CHR ''*''" using starred_keep.prems by (auto simp: starFree_def)
    then obtain t0 where "t = d # t0"
      using starred_head starred_keep.hyps t' by blast
    then show False using cd starred_keep.prems by simp
  qed
  then show ?case using rest by (auto simp: adjacent_Cons)
next
  case (starred_star t t')
  then show ?case by (auto simp: adjacent_Cons starFree_def)
qed

lemma starred_unblocked:
  assumes "starred t t'" "\<not> unblocked pre t"
    and "endsWithPower pre \<longrightarrow> endsWithPower pre'" "endsWithStar pre \<longrightarrow> endsWithStar pre'"
  shows "\<not> unblocked pre' t'"
  using assms
proof (induction arbitrary: pre pre' rule: starred.induct)
  case starred_Nil
  then show ?case by simp
next
  case (starred_keep t t' c)
  have "\<not> unblocked (pre @ [c]) t"
    using starred_keep.prems by (simp add: unblocked_Cons)
  then have rest: "\<not> unblocked (pre' @ [c]) t'"
    using starred_keep.prems
    by (intro starred_keep.IH[of "pre @ [c]"]) (auto simp: endsWithPower_snoc endsWithStar_snoc)
  have "\<not> (isLetter c \<and> isDigit d \<and> take 1 r \<noteq> ''*'' \<and> \<not> endsWithPower pre')"
    if t': "t' = d # r" for d r
  proof
    assume w: "isLetter c \<and> isDigit d \<and> take 1 r \<noteq> ''*'' \<and> \<not> endsWithPower pre'"
    then have "d \<noteq> CHR ''*''" using class_facts by blast
    then obtain t0 where t: "t = d # t0" and t0: "starred t0 r"
      using starred_head starred_keep.hyps t' by blast
    have "\<not> endsWithPower pre" using w starred_keep.prems by blast
    then have "take 1 t0 = ''*''"
      using starred_keep.prems(1) w by (simp add: t)
    then obtain t1 where "t0 = CHR ''*'' # t1" by (cases t0) auto
    then have "take 1 r = ''*''" using t0 starred_star_head by blast
    then show False using w by simp
  qed
  then show ?case using rest by (auto simp: unblocked_Cons)
next
  case (starred_star t t')
  have "\<not> unblocked (pre' @ ''*'') t'"
    using starred_star.prems
    by (intro starred_star.IH[of pre]) (auto simp: endsWithPower_snoc endsWithStar_snoc endsWithPower_star)
  then show ?case using class_facts by (auto simp: unblocked_Cons)
qed


subsection \<open>Each replacement leaves no match of its own, and is the identity without one\<close>

lemma replaceCaret_none: "CHR ''^'' \<notin> set (replaceCaret s)"
  by (induction s) (auto simp: replaceCaret_def)

lemma replaceCaret_id: "CHR ''^'' \<notin> set t \<Longrightarrow> replaceCaret t = t"
  by (induction t) (auto simp: replaceCaret_def)

lemma insertStar_id: "\<not> adjacent A B t \<Longrightarrow> insertStar A B t = t"
  by (induction A B t rule: insertStar.induct) auto

lemma insertStar_none:
  assumes "\<And>c. B c \<Longrightarrow> \<not> A c" "starFree A" "starFree B"
  shows "\<not> adjacent A B (insertStar A B t)"
proof (induction t rule: induct_list012)
  case 1
  show ?case by simp
next
  case (2 c)
  show ?case by simp
next
  case (3 c d cs)
  obtain r where r: "insertStar A B (d # cs) = d # r"
    using insertStar_head by blast
  have "\<not> adjacent A B (d # r)" using 3 r by simp
  then show ?case
    using assms(2,3)
    by (auto simp: insertStar_slide[OF assms(1)] r starFree_def simp del: insertStar.simps)
qed

lemma letterDigit_id: "\<not> unblocked pre t \<Longrightarrow> letterDigit pre t = t"
proof (induction t arbitrary: pre rule: induct_list012)
  case 1
  show ?case by simp
next
  case (2 c)
  show ?case by simp
next
  case (3 c d cs)
  then have "letterDigit (pre @ [c]) (d # cs) = d # cs" by simp
  then show ?case
    using "3.prems" unfolding letterDigit_slide by simp
qed

lemma letterDigit_none:
  assumes "endsWithPower pre \<longrightarrow> endsWithPower pre'" "endsWithStar pre \<longrightarrow> endsWithStar pre'"
  shows "\<not> unblocked pre' (letterDigit pre t)"
  using assms
proof (induction t arbitrary: pre pre' rule: induct_list012)
  case 1
  show ?case by simp
next
  case (2 c)
  show ?case by simp
next
  case (3 c d cs)
  obtain r where r: "letterDigit (pre @ [c]) (d # cs) = d # r"
    using letterDigit_head by blast
  show ?case
  proof (cases "isLetter c \<and> isDigit d \<and> take 1 cs \<noteq> ''*'' \<and> \<not> endsWithPower pre")
    case True
    then have c: "c \<noteq> CHR ''*''" using class_facts by blast
    have "\<not> unblocked (pre' @ [c, CHR ''*'']) (letterDigit (pre @ [c]) (d # cs))"
      using c by (intro "3.IH"(2)) (simp_all add: endsWithPower_snoc endsWithStar_snoc
                                       flip: append_Cons append_assoc)
    then show ?thesis
      using True class_facts unfolding letterDigit_slide r
      by (auto simp: unblocked_Cons)
  next
    case False
    have rest: "\<not> unblocked (pre' @ [c]) (d # r)"
      using "3.prems" unfolding r[symmetric]
      by (intro "3.IH"(2)) (simp_all add: endsWithPower_snoc endsWithStar_snoc)
    have "take 1 r = ''*''" if "isLetter c" "isDigit d" "\<not> endsWithPower pre'"
    proof -
      have "\<not> endsWithPower pre" using that "3.prems" by blast
      then have "take 1 cs = ''*''" using False that by blast
      then obtain cs' where cs: "cs = CHR ''*'' # cs'" by (cases cs) auto
      have "\<not> isLetter d" using that class_facts by blast
      then have "letterDigit (pre @ [c]) (d # cs) = d # letterDigit ((pre @ [c]) @ [d]) (CHR ''*'' # cs')"
        unfolding cs by simp
      moreover obtain r' where "letterDigit ((pre @ [c]) @ [d]) (CHR ''*'' # cs') = CHR ''*'' # r'"
        using letterDigit_head by blast
      ultimately show ?thesis using r by simp
    qed
    then show ?thesis
      using False rest unfolding letterDigit_slide r
      by (auto simp: unblocked_Cons)
  qed
qed

text \<open>
  C7. Normalising is idempotent: for every string, normalising the normalised string
  gives the normalised string again.
\<close>

theorem normalizeForBackend_idempotent:
  "normalizeForBackend (normalizeForBackend s) = normalizeForBackend s"
proof (cases "s = []")
  case True
  then show ?thesis by (simp add: normalizeForBackend_def)
next
  case False
  define s2 where "s2 = replaceCaret s"
  define s3 where "s3 = insertStar isDigit isLetter s2"
  define s4 where "s4 = letterDigit [] s3"
  define s5 where "s5 = insertStar (\<lambda>c. c = CHR '')'') (\<lambda>c. c = CHR ''('') s4"
  define s6 where "s6 = insertStar isDigit (\<lambda>c. c = CHR ''('') s5"
  define s7 where "s7 = insertStar (\<lambda>c. c = CHR '')'') isDigit s6"
  have N: "normalizeForBackend s = s7"
    using False by (simp add: normalizeForBackend_def s2_def s3_def s4_def s5_def s6_def s7_def)
  have st3: "starred s2 s3" unfolding s3_def by (rule starred_insertStar)
  have st4: "starred s3 s4" unfolding s4_def by (rule starred_letterDigit)
  have st5: "starred s4 s5" unfolding s5_def by (rule starred_insertStar)
  have st6: "starred s5 s6" unfolding s6_def by (rule starred_insertStar)
  have st7: "starred s6 s7" unfolding s7_def by (rule starred_insertStar)
  note sf = starFree_classes
  have "CHR ''^'' \<notin> set s2"
    unfolding s2_def by (rule replaceCaret_none)
  then have caret: "CHR ''^'' \<notin> set s7"
    by (intro starred_caret[OF st7] starred_caret[OF st6] starred_caret[OF st5]
          starred_caret[OF st4] starred_caret[OF st3])
  have "\<not> adjacent isDigit isLetter s3"
    unfolding s3_def by (rule insertStar_none) (use class_facts sf in blast)+
  then have digit_letter: "\<not> adjacent isDigit isLetter s7"
    by (intro starred_adjacent[OF st7] starred_adjacent[OF st6] starred_adjacent[OF st5]
          starred_adjacent[OF st4] sf)
  have "\<not> unblocked [] s4"
    unfolding s4_def by (rule letterDigit_none) simp_all
  then have letter_digit: "\<not> unblocked [] s7"
    by (intro starred_unblocked[OF st7, of "[]"] starred_unblocked[OF st6, of "[]"]
          starred_unblocked[OF st5, of "[]"] impI)
  have "\<not> adjacent (\<lambda>c. c = CHR '')'') (\<lambda>c. c = CHR ''('') s5"
    unfolding s5_def by (rule insertStar_none) (use sf in auto)
  then have parens: "\<not> adjacent (\<lambda>c. c = CHR '')'') (\<lambda>c. c = CHR ''('') s7"
    by (intro starred_adjacent[OF st7] starred_adjacent[OF st6] sf)
  have "\<not> adjacent isDigit (\<lambda>c. c = CHR ''('') s6"
    unfolding s6_def by (rule insertStar_none) (use class_facts sf in blast)+
  then have digit_paren: "\<not> adjacent isDigit (\<lambda>c. c = CHR ''('') s7"
    by (intro starred_adjacent[OF st7] sf)
  have paren_digit: "\<not> adjacent (\<lambda>c. c = CHR '')'') isDigit s7"
    unfolding s7_def by (rule insertStar_none) (use class_facts sf in blast)+
  have "normalizeForBackend s7 = s7"
    unfolding normalizeForBackend_def Let_def replaceCaret_id[OF caret] insertStar_id[OF digit_letter]
          letterDigit_id[OF letter_digit] insertStar_id[OF parens] insertStar_id[OF digit_paren]
          insertStar_id[OF paren_digit]
    by simp
  then show ?thesis by (simp add: N)
qed

lemma normalizeForBackend_examples:
  "normalizeForBackend ''2x+1'' = ''2*x+1''"
  "normalizeForBackend ''x^2'' = ''x**2''"
  "normalizeForBackend ''x2'' = ''x*2''"
  "normalizeForBackend ''(x+1)(x-1)'' = ''(x+1)*(x-1)''"
  "normalizeForBackend ''2(x)3'' = ''2*(x)*3''"
  by (simp_all add: normalizeForBackend_def replaceCaret_def isDigit_def isLetter_def endsWithPower_def)

section \<open>Properties of the expression parser\<close>

lemma allowed_name:
  "map_of ALLOWED_NAMES n = Some Variable \<or> map_of ALLOWED_NAMES n = Some Constant_value
     \<Longrightarrow> n \<in> fst ` set ALLOWED_NAMES"
  by (auto simp: ALLOWED_NAMES_def split: if_splits)

lemma allowed_function:
  "(map_of ALLOWED_NAMES n = Some Function)
     = (n \<in> {''sin'', ''cos'', ''tan'', ''exp'', ''log'', ''sqrt'', ''abs''})"
  by (auto simp: ALLOWED_NAMES_def)

lemma forbidden_not_valid: "forbidden e \<Longrightarrow> \<not> validate e"
proof (induction rule: forbidden.induct)
  case (in_name n)
  then show ?case using allowed_name by auto
next
  case (in_call f args)
  then show ?case by (cases f) (auto simp: allowed_function simp del: map_of.simps)
next
  case (in_argument a args f)
  then show ?case by (auto simp: list_all_iff)
qed simp_all

text \<open>
  C2. Every input is rejected with \<open>InvalidExpressionError\<close>, and no callable is made,
  when it does not parse, when it is a statement, or when its syntax tree holds, at any
  depth, a string or list literal, an attribute access, a subscript, an identifier
  outside \<open>ALLOWED_NAMES\<close>, or a call of anything but one of \<open>sin\<close>, \<open>cos\<close>,
  \<open>tan\<close>, \<open>exp\<close>, \<open>log\<close>, \<open>sqrt\<close>, \<open>abs\<close>; so it is for \<open>import os\<close>, a
  statement.
\<close>

theorem forbidden_input_rejected:
  assumes "parse source = None \<or> parse source = Some Statement
           \<or> (\<exists>e. parse source = Some (Expression e) \<and> forbidden e)"
  shows "evaluate_expression parse source = Inl InvalidExpressionError"
  using assms forbidden_not_valid
  by (auto simp: evaluate_expression_def)

theorem forbidden_input_rejected_witness:
  "evaluate_expression (\<lambda>s. if s = ''import os'' then Some Statement else None) ''import os''
     = Inl InvalidExpressionError
   \<and> forbidden (Call (Attribute (Name ''os'') ''system'') [Num 1])
   \<and> evaluate_expression (\<lambda>s. Some (Expression (Call (Attribute (Name ''os'') ''system'') [Num 1])))
        ''os.system(1)'' = Inl InvalidExpressionError
   \<and> evaluate_expression (\<lambda>s. Some (Expression (BinOp (BinOp (Num 2) Mult_op (Name ''x'')) Add_op (Num 1))))
        ''2*x+1'' = Inr (BinOp (BinOp (Num 2) Mult_op (Name ''x'')) Add_op (Num 1))"
  using forbidden_input_rejected [of "\<lambda>s. if s = ''import os'' then Some Statement else None" "''import os''"]
        forbidden_input_rejected [of "\<lambda>s. Some (Expression (Call (Attribute (Name ''os'') ''system'') [Num 1]))"
                                     "''os.system(1)''"]
        in_call [of "Attribute (Name ''os'') ''system''" "[Num 1]"]
  by (simp add: evaluate_expression_def ALLOWED_NAMES_def ALLOWED_OPERATORS_def)

section \<open>Properties of the quadrature rules\<close>

subsection \<open>The rules as sums over the sample points\<close>

lemma sum_list_py_slice:
  "sum_list (py_slice ys start stop step)
     = (\<Sum>i \<in> {i \<in> {slice_index (length ys) start ..< slice_index (length ys) stop}.
                (i - slice_index (length ys) start) mod step = 0}. ys ! i)"
  unfolding py_slice_def Let_def
  by (subst sum_list_distinct_conv_sum_set) (auto intro: sum.cong)

lemma linspace_points:
  assumes "1 \<le> n"
  shows "linspace a b (n + 1) = Inr (map (\<lambda>i. a + real i * ((b - a) / real_of_int n)) [0..<Suc (nat n)])"
  using assms by (simp add: linspace_def nat_add_distrib)


lemma nth_map_upt0: "i < M \<Longrightarrow> map g [0..<M] ! i = g i"
  by simp

lemma sum_list_py_slice_points:
  assumes "1 \<le> N"
  shows "sum_list (py_slice (map g [0..<Suc N]) (int lo) (- 1) step)
           = sum g {i \<in> {lo..<N}. (i - lo) mod step = 0}"
proof -
  have len: "length (map g [0..<Suc N]) = Suc N" by simp
  have hi: "slice_index (Suc N) (- 1) = N"
    by (simp add: slice_index_def)
  show ?thesis
  proof (cases "lo \<le> Suc N")
    case True
    then have lo: "slice_index (Suc N) (int lo) = lo"
      by (simp add: slice_index_def)
    show ?thesis
      unfolding sum_list_py_slice len hi lo
      by (rule sum.cong) (auto simp del: upt_Suc simp add: nth_map_upt0)
  next
    case False
    then have lo: "slice_index (Suc N) (int lo) = Suc N"
      by (simp add: slice_index_def)
    have "{Suc N..<N} = {}" "{lo..<N} = {}" using False by auto
    then show ?thesis
      unfolding sum_list_py_slice len hi lo by simp
  qed
qed

lemma points_first: "map g [0..<Suc N] ! 0 = g 0"
  by (simp add: nth_map_upt0 del: upt_Suc)

lemma points_last: "last (map g [0..<Suc N]) = g N"
  by simp

lemma trapezoidal_rule_sum:
  assumes "1 \<le> n"
  shows "trapezoidal_rule f a b n =
           Inr (((b - a) / real_of_int n) / 2 *
                (f a + 2 * (\<Sum>i \<in> {1..<nat n}. f (a + real i * ((b - a) / real_of_int n))) + f b))"
proof -
  define N where "N = nat n"
  define h where "h = (b - a) / real_of_int n"
  define g where "g = (\<lambda>i. f (a + real i * h))"
  have n: "n = int N" "N \<ge> 1" "real_of_int n = real N" using assms by (auto simp: N_def)
  define xs where "xs = map (\<lambda>i. a + real i * h) [0..<Suc N]"
  have pts: "linspace a b (n + 1) = Inr xs"
    unfolding xs_def h_def N_def by (rule linspace_points) (use assms in simp)
  have ys: "map f xs = map g [0..<Suc N]"
    by (simp add: xs_def g_def)
  have ne: "(map g [0..<Suc N] = []) = False"
    by simp
  have "sum_list (py_slice (map g [0..<Suc N]) (int 1) (- 1) 1)
          = sum g {i \<in> {1..<N}. (i - 1) mod 1 = 0}"
    by (rule sum_list_py_slice_points[OF n(2)])
  moreover have "{i \<in> {1..<N}. (i - 1) mod 1 = 0} = {1..<N}" by auto
  ultimately have inner: "sum_list (py_slice (map g [0..<Suc N]) 1 (- 1) 1) = sum g {1..<N}"
    by (simp only: of_nat_1)
  have ends: "g 0 = f a" "g N = f b"
    using n by (simp_all add: g_def h_def)
  have "trapezoidal_rule f a b n =
          Inr ((h / 2) * (map g [0..<Suc N] ! 0
                 + 2 * sum_list (py_slice (map g [0..<Suc N]) 1 (- 1) 1) + last (map g [0..<Suc N])))"
    unfolding trapezoidal_rule_def pts using assms
    by (simp add: Let_def ys ne flip: h_def del: upt_Suc)
  then show ?thesis
    unfolding inner points_first points_last ends
    by (simp add: g_def h_def N_def)
qed

lemma simpsons_rule_sum:
  assumes "1 \<le> n" "n mod 2 = 0"
  shows "simpsons_rule f a b n =
           Inr (((b - a) / real_of_int n) / 3 *
                (f a + 4 * (\<Sum>i \<in> {i \<in> {1..<nat n}. (i - 1) mod 2 = 0}. f (a + real i * ((b - a) / real_of_int n)))
                     + 2 * (\<Sum>i \<in> {i \<in> {2..<nat n}. (i - 2) mod 2 = 0}. f (a + real i * ((b - a) / real_of_int n)))
                     + f b))"
proof -
  define N where "N = nat n"
  define h where "h = (b - a) / real_of_int n"
  define g where "g = (\<lambda>i. f (a + real i * h))"
  have n: "n = int N" "N \<ge> 1" "real_of_int n = real N" using assms by (auto simp: N_def)
  define xs where "xs = map (\<lambda>i. a + real i * h) [0..<Suc N]"
  have pts: "linspace a b (n + 1) = Inr xs"
    unfolding xs_def h_def N_def by (rule linspace_points) (use assms in simp)
  have ys: "map f xs = map g [0..<Suc N]"
    by (simp add: xs_def g_def)
  have ne: "(map g [0..<Suc N] = []) = False"
    by simp
  have odd: "sum_list (py_slice (map g [0..<Suc N]) 1 (- 1) 2) = sum g {i \<in> {1..<N}. (i - 1) mod 2 = 0}"
    using sum_list_py_slice_points[OF n(2), of g 1 2] by (simp only: of_nat_1)
  have even: "sum_list (py_slice (map g [0..<Suc N]) 2 (- 1) 2) = sum g {i \<in> {2..<N}. (i - 2) mod 2 = 0}"
    using sum_list_py_slice_points[OF n(2), of g 2 2] by (simp only: of_nat_numeral)
  have ends: "g 0 = f a" "g N = f b"
    using n by (simp_all add: g_def h_def)
  have "simpsons_rule f a b n =
          Inr ((h / 3) * (map g [0..<Suc N] ! 0
                 + 4 * sum_list (py_slice (map g [0..<Suc N]) 1 (- 1) 2)
                 + 2 * sum_list (py_slice (map g [0..<Suc N]) 2 (- 1) 2) + last (map g [0..<Suc N])))"
    unfolding simpsons_rule_def using assms
    by (simp add: Let_def pts ys ne flip: h_def del: upt_Suc)
  then show ?thesis
    unfolding odd even points_first points_last ends
    by (simp add: g_def h_def N_def)
qed

lemma simpsons_rule_coerce:
  "n mod 2 \<noteq> 0 \<Longrightarrow> simpsons_rule f a b n = simpsons_rule f a b (n + 1)"
  unfolding simpsons_rule_def Let_def by (simp add: mod_add_left_eq) presburger

lemma midpoint_rule_sum:
  assumes "1 \<le> n"
  shows "midpoint_rule f a b n =
           Inr ((b - a) / real_of_int n *
                (\<Sum>i \<in> {0..<nat n}. f (a + (real i + 1 / 2) * ((b - a) / real_of_int n))))"
  using assms unfolding midpoint_rule_def Let_def
  by (simp add: comp_def sum_list_distinct_conv_sum_set)


subsection \<open>Linear integrands\<close>

lemma linear_antiderivative_deriv:
  "(linear_antiderivative c1 c0 has_real_derivative c1 * x + c0) (at x)"
  unfolding linear_antiderivative_def
  by (auto intro!: derivative_eq_intros)

lemma linear_interior_sum:
  "(\<Sum>i \<in> {1..<Suc m}. c1 * (a + real i * h) + c0)
     = real m * (c1 * a + c0) + c1 * h * (real m * (real m + 1) / 2)"
  by (induction m) (simp_all add: algebra_simps)

text \<open>
  C5. For a polynomial \<open>c1 * x + c0\<close> of degree at most 1, any bounds and any
  \<open>n \<ge> 1\<close>, the trapezoidal rule returns the integral of the polynomial over
  \<open>[a, b]\<close> exactly; for \<open>2x + 1\<close> on \<open>[0, 2]\<close> with \<open>n = 1\<close> it returns 6.
\<close>

theorem trapezoidal_rule_linear_exact:
  assumes "1 \<le> n"
  shows "trapezoidal_rule (\<lambda>x. c1 * x + c0) a b n = Inr (linear_integral c1 c0 a b)"
proof -
  obtain m where m: "nat n = Suc m" using assms by (cases "nat n") auto
  have "real_of_int n = real (nat n)" using assms by simp
  then have n: "real_of_int n = real m + 1" by (simp add: m)
  define h where "h = (b - a) / (real m + 1)"
  have b: "b = a + h * (real m + 1)"
    by (simp add: h_def add_nonneg_eq_0_iff)
  have "h / 2 * ((c1 * a + c0) + 2 * (real m * (c1 * a + c0) + c1 * h * (real m * (real m + 1) / 2))
             + (c1 * (a + h * (real m + 1)) + c0))
        = linear_integral c1 c0 a (a + h * (real m + 1))"
    unfolding linear_integral_def linear_antiderivative_def
    by (simp add: algebra_simps power2_eq_square)
  then have "h / 2 * ((c1 * a + c0) + 2 * (real m * (c1 * a + c0) + c1 * h * (real m * (real m + 1) / 2))
             + (c1 * b + c0))
        = linear_integral c1 c0 a b"
    using b by simp
  then show ?thesis
    unfolding trapezoidal_rule_sum[OF assms] m linear_interior_sum n h_def by simp
qed

theorem trapezoidal_rule_linear_exact_witness:
  "(1::int) \<le> 1 \<and> trapezoidal_rule (\<lambda>x. 2 * x + 1) 0 2 1 = Inr 6"
  using trapezoidal_rule_linear_exact [of 1 2 1 0 2]
  by (simp add: linear_integral_def linear_antiderivative_def)

subsection \<open>Swapped bounds\<close>

lemma swap_point:
  assumes "i \<le> N" "N \<noteq> 0"
  shows "b + real i * ((a - b) / real N) = a + real (N - i) * ((b - a) / real N)"
  using assms by (simp add: field_simps)

lemma swap_sum:
  assumes "N \<noteq> 0" "\<And>i. i \<in> S \<Longrightarrow> i \<le> N \<and> N - i \<in> S"
  shows "(\<Sum>i \<in> S. f (b + real i * ((a - b) / real N))) = (\<Sum>i \<in> S. f (a + real i * ((b - a) / real N)))"
proof -
  have "(\<Sum>i \<in> S. f (b + real i * ((a - b) / real N))) = (\<Sum>i \<in> S. f (a + real (N - i) * ((b - a) / real N)))"
    by (rule sum.cong) (use assms swap_point in auto)
  also have "\<dots> = (\<Sum>i \<in> S. f (a + real i * ((b - a) / real N)))"
    by (rule sum.reindex_bij_witness[of _ "\<lambda>i. N - i" "\<lambda>i. N - i"]) (use assms in auto)
  finally show ?thesis .
qed

lemma swap_step: "(a - b) / c = - ((b - a) / c)" for a b c :: real
  by (metis minus_diff_eq minus_divide_left)

lemma trapezoidal_rule_swap:
  assumes "1 \<le> n"
  shows "\<exists>r. trapezoidal_rule f a b n = Inr r \<and> trapezoidal_rule f b a n = Inr (- r)"
proof -
  define N where "N = nat n"
  define h where "h = (b - a) / real N"
  define S where "S = (\<Sum>i \<in> {1..<N}. f (a + real i * ((b - a) / real N)))"
  have n: "real_of_int n = real N" "N \<noteq> 0" using assms by (auto simp: N_def)
  have sw: "(\<Sum>i \<in> {1..<N}. f (b + real i * ((a - b) / real N))) = S"
    unfolding S_def by (rule swap_sum) (use n in auto)
  have A: "trapezoidal_rule f a b n = Inr (h / 2 * (f a + 2 * S + f b))"
    by (simp only: trapezoidal_rule_sum[OF assms] n N_def[symmetric] h_def S_def)
  have B: "trapezoidal_rule f b a n = Inr ((a - b) / real N / 2 * (f b + 2 * S + f a))"
    by (simp only: trapezoidal_rule_sum[OF assms] n N_def[symmetric] sw)
  have "(a - b) / real N = - h"
    unfolding h_def by (rule swap_step)
  then show ?thesis unfolding A B by (simp add: algebra_simps)
qed

lemma midpoint_rule_swap:
  assumes "1 \<le> n"
  shows "\<exists>r. midpoint_rule f a b n = Inr r \<and> midpoint_rule f b a n = Inr (- r)"
proof -
  define N where "N = nat n"
  define h where "h = (b - a) / real N"
  define S where "S = (\<Sum>i \<in> {0..<N}. f (a + (real i + 1 / 2) * ((b - a) / real N)))"
  have n: "real_of_int n = real N" "N \<noteq> 0" using assms by (auto simp: N_def)
  have "(\<Sum>i \<in> {0..<N}. f (b + (real i + 1 / 2) * ((a - b) / real N)))
          = (\<Sum>i \<in> {0..<N}. f (a + (real (N - 1 - i) + 1 / 2) * ((b - a) / real N)))"
  proof (rule sum.cong)
    fix i assume "i \<in> {0..<N}"
    then have "real (N - 1 - i) = real N - 1 - real i" by simp
    then show "f (b + (real i + 1 / 2) * ((a - b) / real N))
                 = f (a + (real (N - 1 - i) + 1 / 2) * ((b - a) / real N))"
      using n by (simp add: field_simps)
  qed simp
  also have "\<dots> = S"
    unfolding S_def
    by (rule sum.reindex_bij_witness[of _ "\<lambda>i. N - 1 - i" "\<lambda>i. N - 1 - i"]) auto
  finally have sw: "(\<Sum>i \<in> {0..<N}. f (b + (real i + 1 / 2) * ((a - b) / real N))) = S" .
  have A: "midpoint_rule f a b n = Inr (h * S)"
    by (simp only: midpoint_rule_sum[OF assms] n N_def[symmetric] h_def S_def)
  have B: "midpoint_rule f b a n = Inr ((a - b) / real N * S)"
    by (simp only: midpoint_rule_sum[OF assms] n N_def[symmetric] sw)
  have "(a - b) / real N = - h"
    unfolding h_def by (rule swap_step)
  then show ?thesis unfolding A B by simp
qed

lemma simpsons_rule_swap_even:
  assumes "1 \<le> n" "n mod 2 = 0"
  shows "\<exists>r. simpsons_rule f a b n = Inr r \<and> simpsons_rule f b a n = Inr (- r)"
proof -
  define N where "N = nat n"
  define h where "h = (b - a) / real N"
  define S1 where "S1 = (\<Sum>i \<in> {i \<in> {1..<N}. (i - 1) mod 2 = 0}. f (a + real i * ((b - a) / real N)))"
  define S2 where "S2 = (\<Sum>i \<in> {i \<in> {2..<N}. (i - 2) mod 2 = 0}. f (a + real i * ((b - a) / real N)))"
  have "even n" using assms(2) by presburger
  then have "even N" using assms(1) by (simp add: N_def even_nat_iff)
  then have n: "real_of_int n = real N" "N \<noteq> 0" "N mod 2 = 0" using assms(1)
    by (auto simp: N_def)
  have odd: "(\<Sum>i \<in> {i \<in> {1..<N}. (i - 1) mod 2 = 0}. f (b + real i * ((a - b) / real N))) = S1"
    unfolding S1_def
  proof (rule swap_sum)
    fix i assume "i \<in> {i \<in> {1..<N}. (i - 1) mod 2 = 0}"
    then have "1 \<le> i" "i < N" "(i - 1) mod 2 = 0" by auto
    then have "(N - i - 1) mod 2 = 0" using n(3) by presburger
    then show "i \<le> N \<and> N - i \<in> {i \<in> {1..<N}. (i - 1) mod 2 = 0}"
      using \<open>1 \<le> i\<close> \<open>i < N\<close> by auto
  qed (rule n)
  have even: "(\<Sum>i \<in> {i \<in> {2..<N}. (i - 2) mod 2 = 0}. f (b + real i * ((a - b) / real N))) = S2"
    unfolding S2_def
  proof (rule swap_sum)
    fix i assume "i \<in> {i \<in> {2..<N}. (i - 2) mod 2 = 0}"
    then have i: "2 \<le> i" "i < N" "(i - 2) mod 2 = 0" by auto
    then have "(N - i - 2) mod 2 = 0" "2 \<le> N - i" using n(3) by presburger+
    then show "i \<le> N \<and> N - i \<in> {i \<in> {2..<N}. (i - 2) mod 2 = 0}"
      using i by auto
  qed (rule n)
  have A: "simpsons_rule f a b n = Inr (h / 3 * (f a + 4 * S1 + 2 * S2 + f b))"
    by (simp only: simpsons_rule_sum[OF assms] n N_def[symmetric] h_def S1_def S2_def)
  have B: "simpsons_rule f b a n = Inr ((a - b) / real N / 3 * (f b + 4 * S1 + 2 * S2 + f a))"
    by (simp only: simpsons_rule_sum[OF assms] n N_def[symmetric] odd even)
  have "(a - b) / real N = - h"
    unfolding h_def by (rule swap_step)
  then show ?thesis unfolding A B by (simp add: algebra_simps)
qed

lemma simpsons_rule_swap:
  assumes "1 \<le> n"
  shows "\<exists>r. simpsons_rule f a b n = Inr r \<and> simpsons_rule f b a n = Inr (- r)"
proof (cases "n mod 2 = 0")
  case True
  with assms show ?thesis by (rule simpsons_rule_swap_even)
next
  case False
  then have "1 \<le> n + 1" "(n + 1) mod 2 = 0" using assms by presburger+
  then have "\<exists>r. simpsons_rule f a b (n + 1) = Inr r \<and> simpsons_rule f b a (n + 1) = Inr (- r)"
    by (rule simpsons_rule_swap_even)
  then show ?thesis
    by (simp add: simpsons_rule_coerce[OF False])
qed

text \<open>
  C6. For every callable, all bounds and every \<open>n \<ge> 1\<close>, each of the three rules
  returns a value, and with the bounds swapped it returns the negated value; so it is
  for the sine on \<open>[0, pi]\<close> and \<open>[pi, 0]\<close>.
\<close>

theorem swapped_bounds_negate:
  assumes "1 \<le> n"
  shows "(\<exists>r. trapezoidal_rule f a b n = Inr r \<and> trapezoidal_rule f b a n = Inr (- r))
       \<and> (\<exists>r. midpoint_rule f a b n = Inr r \<and> midpoint_rule f b a n = Inr (- r))
       \<and> (\<exists>r. simpsons_rule f a b n = Inr r \<and> simpsons_rule f b a n = Inr (- r))"
  using trapezoidal_rule_swap[OF assms] midpoint_rule_swap[OF assms] simpsons_rule_swap[OF assms]
  by blast

theorem swapped_bounds_negate_witness:
  "(1::int) \<le> 4
   \<and> (\<exists>r. trapezoidal_rule sin 0 pi 4 = Inr r \<and> trapezoidal_rule sin pi 0 4 = Inr (- r))
   \<and> (\<exists>r. midpoint_rule sin 0 pi 4 = Inr r \<and> midpoint_rule sin pi 0 4 = Inr (- r))
   \<and> (\<exists>r. simpsons_rule sin 0 pi 4 = Inr r \<and> simpsons_rule sin pi 0 4 = Inr (- r))"
  using swapped_bounds_negate [of 4 sin 0 pi]
  by simp

section \<open>Properties of the visualization data\<close>

lemma length_py_range_step_even: "length (filter (\<lambda>i. i mod 2 = 0) [0..<N]) = (N + 1) div 2"
  by (induction N) (auto, presburger+)

text \<open>
  C8. For every callable, all bounds and every count \<open>n \<ge> 0\<close>, the visualization
  data holds one shape for each subinterval for the trapezoidal and the midpoint method
  (\<open>n\<close> shapes), and one parabola for each pair of subintervals for Simpson: half the
  count after its coercion to an even number.
\<close>

theorem shape_count:
  assumes "0 \<le> n"
  shows "int (length (shapes (get_visualization_data x_points curve_points f a b n ''trapezoidal''))) = n
       \<and> int (length (shapes (get_visualization_data x_points curve_points f a b n ''midpoint''))) = n
       \<and> int (length (shapes (get_visualization_data x_points curve_points f a b n ''simpson'')))
           = (if n mod 2 \<noteq> 0 then n + 1 else n) div 2"
proof -
  have "int ((nat n + 1) div 2) = (if n mod 2 \<noteq> 0 then n + 1 else n) div 2"
    using assms by (simp add: zdiv_int) presburger
  then show ?thesis
    using assms by (simp add: get_visualization_data_def py_range_def py_range_step_def length_py_range_step_even)
qed

theorem shape_count_witness:
  "(0::int) \<le> 5
   \<and> length (shapes (get_visualization_data real [] (\<lambda>x. x * x) 0 5 5 ''trapezoidal'')) = 5
   \<and> length (shapes (get_visualization_data real [] (\<lambda>x. x * x) 0 5 5 ''midpoint'')) = 5
   \<and> length (shapes (get_visualization_data real [] (\<lambda>x. x * x) 0 5 5 ''simpson'')) = 3
   \<and> shapes (get_visualization_data real [] (\<lambda>x. x * x) 0 4 4 ''simpson'')
        = [Parabola 0 1 2 0 1 4, Parabola 2 3 4 4 9 16]"
  using shape_count [of 5 real "[]" "\<lambda>x. x * x" 0 5]
  by (simp add: get_visualization_data_def py_range_def py_range_step_def upt_conv_Cons)

section \<open>Properties of the convergence analysis\<close>

subsection \<open>The loops\<close>



lemma n_loop_records:
  "n_loop f a b m ex prev ns = Inr rs \<Longrightarrow>
     map rec_n rs = ns \<and>
     (\<forall>r \<in> set rs. rec_h r = (b - a) / real_of_int (rec_n r)
                  \<and> compute_integral f a b (rec_n r) m = Inr (rec_approx r)
                  \<and> rec_abs_error r = \<bar>rec_approx r - ex\<bar>)"
proof (induction ns arbitrary: prev rs)
  case Nil
  then show ?case by simp
next
  case (Cons n ns)
  then show ?case
    by (fastforce simp: Let_def calculate_errors_def split: sum.splits if_splits)
qed

lemma n_loop_eoc:
  "n_loop f a b m ex prev ns = Inr rs \<Longrightarrow>
     (rs \<noteq> [] \<longrightarrow>
        rec_eoc (hd rs) = (case prev of None \<Rightarrow> None
                           | Some (prev_error, prev_n) \<Rightarrow>
                               calculate_eoc prev_error (rec_abs_error (hd rs)) prev_n (rec_n (hd rs))))
     \<and> (\<forall>i. Suc i < length rs \<longrightarrow>
            rec_eoc (rs ! Suc i) = calculate_eoc (rec_abs_error (rs ! i)) (rec_abs_error (rs ! Suc i))
                                      (rec_n (rs ! i)) (rec_n (rs ! Suc i)))"
proof (induction ns arbitrary: prev rs)
  case Nil
  then show ?case by simp
next
  case (Cons n ns)
  from Cons.prems obtain r rest where
    r: "compute_integral f a b n m = Inr r" and n0: "n \<noteq> 0"
    and rest: "n_loop f a b m ex (Some (absolute_error (calculate_errors r ex), n)) ns = Inr rest"
    and rs: "rs = \<lparr>rec_n = n, rec_h = (b - a) / real_of_int n, rec_approx = r,
                   rec_abs_error = absolute_error (calculate_errors r ex),
                   rec_rel_error = relative_error (calculate_errors r ex),
                   rec_eoc = (case prev of None \<Rightarrow> None
                              | Some (prev_error, prev_n) \<Rightarrow>
                                  calculate_eoc prev_error (absolute_error (calculate_errors r ex)) prev_n n)\<rparr>
                 # rest"
    by (auto simp: Let_def split: sum.splits if_splits)
  note IH = Cons.IH[OF rest]
  have first: "rec_eoc (hd rs) = (case prev of None \<Rightarrow> None
                           | Some (prev_error, prev_n) \<Rightarrow>
                               calculate_eoc prev_error (rec_abs_error (hd rs)) prev_n (rec_n (hd rs)))"
    by (simp add: rs split: option.splits)
  have later: "rec_eoc (rs ! Suc i) = calculate_eoc (rec_abs_error (rs ! i)) (rec_abs_error (rs ! Suc i))
                                      (rec_n (rs ! i)) (rec_n (rs ! Suc i))"
    if "Suc i < length rs" for i
  proof (cases i)
    case 0
    then have "rest \<noteq> []" using that rs by auto
    then show ?thesis using IH 0 by (simp add: rs hd_conv_nth)
  next
    case (Suc j)
    then show ?thesis using IH that by (simp add: rs)
  qed
  show ?case using first later by blast
qed

subsection \<open>The winner\<close>

lemma py_min_foldl:
  "foldl (\<lambda>best y. if key y < key best then y else best) x xs = w \<Longrightarrow>
     (w = x \<and> (\<forall>k \<in> set xs. key x \<le> key k))
     \<or> (\<exists>pre post. xs = pre @ w # post \<and> key w < key x
            \<and> (\<forall>k \<in> set pre. key w < key k) \<and> (\<forall>k \<in> set post. key w \<le> key k))"
  for key :: "'a \<Rightarrow> real"
proof (induction xs arbitrary: x)
  case Nil
  then show ?case by simp
next
  case (Cons y ys)
  show ?case
  proof (cases "key y < key x")
    case True
    then have "foldl (\<lambda>best y. if key y < key best then y else best) y ys = w"
      using Cons.prems by simp
    from Cons.IH[OF this] show ?thesis
    proof
      assume "w = y \<and> (\<forall>k \<in> set ys. key y \<le> key k)"
      then have "y # ys = [] @ w # ys \<and> key w < key x
            \<and> (\<forall>k \<in> set []. key w < key k) \<and> (\<forall>k \<in> set ys. key w \<le> key k)"
        using True by simp
      then show ?thesis by blast
    next
      assume "\<exists>pre post. ys = pre @ w # post \<and> key w < key y
            \<and> (\<forall>k \<in> set pre. key w < key k) \<and> (\<forall>k \<in> set post. key w \<le> key k)"
      then obtain pre post where "ys = pre @ w # post" "key w < key y"
            "\<forall>k \<in> set pre. key w < key k" "\<forall>k \<in> set post. key w \<le> key k" by blast
      then have "y # ys = (y # pre) @ w # post \<and> key w < key x
            \<and> (\<forall>k \<in> set (y # pre). key w < key k) \<and> (\<forall>k \<in> set post. key w \<le> key k)"
        using True by auto
      then show ?thesis by blast
    qed
  next
    case False
    then have "foldl (\<lambda>best y. if key y < key best then y else best) x ys = w"
      using Cons.prems by simp
    from Cons.IH[OF this] show ?thesis
    proof
      assume "w = x \<and> (\<forall>k \<in> set ys. key x \<le> key k)"
      then show ?thesis using False by auto
    next
      assume "\<exists>pre post. ys = pre @ w # post \<and> key w < key x
            \<and> (\<forall>k \<in> set pre. key w < key k) \<and> (\<forall>k \<in> set post. key w \<le> key k)"
      then obtain pre post where "ys = pre @ w # post" "key w < key x"
            "\<forall>k \<in> set pre. key w < key k" "\<forall>k \<in> set post. key w \<le> key k" by blast
      then have "y # ys = (y # pre) @ w # post \<and> key w < key x
            \<and> (\<forall>k \<in> set (y # pre). key w < key k) \<and> (\<forall>k \<in> set post. key w \<le> key k)"
        using False by auto
      then show ?thesis by blast
    qed
  qed
qed

lemma py_min_first:
  assumes "py_min ks key = Inr w"
  shows "\<exists>pre post. ks = pre @ w # post
            \<and> (\<forall>k \<in> set pre. key w < key k) \<and> (\<forall>k \<in> set post. key w \<le> key k)"
proof (cases ks)
  case Nil
  then show ?thesis using assms by simp
next
  case (Cons x xs)
  then have "foldl (\<lambda>best y. if key y < key best then y else best) x xs = w"
    using assms by simp
  from py_min_foldl[OF this] show ?thesis
  proof
    assume "w = x \<and> (\<forall>k \<in> set xs. key x \<le> key k)"
    then have "ks = [] @ w # xs \<and> (\<forall>k \<in> set []. key w < key k) \<and> (\<forall>k \<in> set xs. key w \<le> key k)"
      using Cons by simp
    then show ?thesis by blast
  next
    assume "\<exists>pre post. xs = pre @ w # post \<and> key w < key x
            \<and> (\<forall>k \<in> set pre. key w < key k) \<and> (\<forall>k \<in> set post. key w \<le> key k)"
    then obtain pre post where "xs = pre @ w # post" "key w < key x"
            "\<forall>k \<in> set pre. key w < key k" "\<forall>k \<in> set post. key w \<le> key k" by blast
    then have "ks = (x # pre) @ w # post \<and> (\<forall>k \<in> set (x # pre). key w < key k)
                 \<and> (\<forall>k \<in> set post. key w \<le> key k)"
      using Cons by auto
    then show ?thesis by blast
  qed
qed


lemma prefix_before:
  assumes "xs @ ys = pre @ w # post" "w \<notin> set xs"
  shows "set xs \<subseteq> set pre"
proof -
  from assms(1) obtain us where
    "(xs = pre @ us \<and> us @ ys = w # post) \<or> (xs @ us = pre \<and> ys = us @ w # post)"
    by (auto simp: append_eq_append_conv2)
  then show ?thesis
  proof
    assume *: "xs = pre @ us \<and> us @ ys = w # post"
    then have "us = []" using assms(2) by (cases us) auto
    then show ?thesis using * by simp
  next
    assume "xs @ us = pre \<and> ys = us @ w # post"
    then show ?thesis by auto
  qed
qed


lemma method_loop_lookup:
  "method_loop f a b ex ns ms acc = Inr res \<Longrightarrow>
     (m \<in> set ms \<longrightarrow> (\<exists>rs. n_loop f a b m ex None (sort ns) = Inr rs \<and> map_of res m = Some rs))
     \<and> (m \<notin> set ms \<longrightarrow> map_of res m = map_of acc m)"
proof (induction ms arbitrary: acc)
  case Nil
  then show ?case by simp
next
  case (Cons k ms)
  from Cons.prems obtain rs where
    rs: "n_loop f a b k ex None (sort ns) = Inr rs"
    and rest: "method_loop f a b ex ns ms (AList.update k rs acc) = Inr res"
    by (auto split: sum.splits)
  from Cons.IH[OF rest] rs show ?case
    by (auto simp: update_conv')
qed

lemma method_loop_keys:
  "method_loop f a b ex ns ms acc = Inr res \<Longrightarrow>
     (\<exists>suffix. map fst res = map fst acc @ suffix)
     \<and> set (map fst res) = set (map fst acc) \<union> set ms
     \<and> (distinct (map fst acc) \<longrightarrow> distinct (map fst res))
     \<and> (\<forall>pre w post. map fst res = pre @ w # post \<and> w \<notin> set (map fst acc)
           \<longrightarrow> (\<exists>pre' post'. ms = pre' @ w # post' \<and> set pre' \<subseteq> set pre))"
proof (induction ms arbitrary: acc)
  case Nil
  then have "acc = res" by simp
  moreover have "w \<in> fst ` set res" if "map fst res = pre @ w # post" for pre w post
  proof -
    have "w \<in> set (map fst res)" by (simp add: that)
    then show ?thesis by simp
  qed
  ultimately show ?case by auto
next
  case (Cons k ms)
  from Cons.prems obtain rs where
    rs: "n_loop f a b k ex None (sort ns) = Inr rs"
    and rest: "method_loop f a b ex ns ms (AList.update k rs acc) = Inr res"
    by (auto split: sum.splits)
  define acc1 where "acc1 = AList.update k rs acc"
  have keys1: "map fst acc1 = (if k \<in> set (map fst acc) then map fst acc else map fst acc @ [k])"
    unfolding acc1_def by (simp add: update_keys)
  note IH = Cons.IH[OF rest, folded acc1_def]
  from IH obtain suffix where suffix: "map fst res = map fst acc1 @ suffix" by blast
  have 1: "\<exists>suffix. map fst res = map fst acc @ suffix"
    using suffix keys1 by (cases "k \<in> set (map fst acc)") auto
  have 2: "set (map fst res) = set (map fst acc) \<union> set (k # ms)"
    using IH keys1 by (cases "k \<in> set (map fst acc)") auto
  have 3: "distinct (map fst acc) \<longrightarrow> distinct (map fst res)"
    using IH keys1 by (cases "k \<in> set (map fst acc)") auto
  have 4: "\<exists>pre' post'. k # ms = pre' @ w # post' \<and> set pre' \<subseteq> set pre"
    if split: "map fst res = pre @ w # post" and new: "w \<notin> set (map fst acc)" for pre w post
  proof (cases "w = k")
    case True
    then have "k # ms = [] @ w # ms \<and> set [] \<subseteq> set pre" by simp
    then show ?thesis by blast
  next
    case False
    then have new1: "w \<notin> set (map fst acc1)" using new keys1 by (auto split: if_splits)
    with IH split obtain pre'' post'' where
      ms: "ms = pre'' @ w # post''" "set pre'' \<subseteq> set pre" by blast
    have "set (map fst acc1) \<subseteq> set pre"
      using prefix_before[of "map fst acc1" suffix pre w post] suffix split new1 by simp
    moreover have "k \<in> set (map fst acc1)" using keys1 by (auto split: if_splits)
    ultimately have "k # ms = (k # pre'') @ w # post'' \<and> set (k # pre'') \<subseteq> set pre"
      using ms by auto
    then show ?thesis by blast
  qed
  show ?case using 1 2 3 4 by blast
qed

lemma sorted_last_Max:
  fixes xs :: "int list"
  assumes "sorted xs" "xs \<noteq> []"
  shows "last xs = Max (set xs)"
proof -
  have "y \<le> last xs" if "y \<in> set xs" for y
  proof -
    from that obtain i where i: "i < length xs" "xs ! i = y"
      by (auto simp: in_set_conv_nth)
    then have "xs ! i \<le> xs ! (length xs - 1)"
      using assms(1) by (intro sorted_nth_mono) auto
    then show ?thesis using i assms(2) by (simp add: last_conv_nth)
  qed
  then show ?thesis using assms by (intro Max_eqI[symmetric]) auto
qed


lemma final_errors_lookup:
  assumes "final_errors res = Inr fe"
  shows "map fst fe = map fst res"
    and "map_of res m = Some rs \<Longrightarrow> map_of fe m = Some (rec_abs_error (last rs))"
proof -
  have fe: "fe = map (\<lambda>(method, method_results). (method, rec_abs_error (last method_results))) res"
    using assms by (simp add: final_errors_def split: if_splits)
  show "map fst fe = map fst res"
    unfolding fe by (induction res) auto
  show "map_of res m = Some rs \<Longrightarrow> map_of fe m = Some (rec_abs_error (last rs))"
    unfolding fe by (induction res) (auto split: if_splits)
qed

lemma method_loop_keys_empty:
  assumes "method_loop f a b ex ns ms [] = Inr res"
  shows "set (map fst res) = set ms"
    and "distinct (map fst res)"
    and "map fst res = pre @ w # post \<Longrightarrow> \<exists>pre' post'. ms = pre' @ w # post' \<and> set pre' \<subseteq> set pre"
proof -
  note keys = method_loop_keys[OF assms]
  show "set (map fst res) = set ms" using keys by simp
  show "distinct (map fst res)" using keys by simp
  have "\<forall>pre w post. map fst res = pre @ w # post \<and> w \<notin> set (map fst ([] :: (integration_method \<times> error_record list) list))
           \<longrightarrow> (\<exists>pre' post'. ms = pre' @ w # post' \<and> set pre' \<subseteq> set pre)"
    using keys by (elim conjE)
  then show "map fst res = pre @ w # post \<Longrightarrow> \<exists>pre' post'. ms = pre' @ w # post' \<and> set pre' \<subseteq> set pre"
    by simp
qed


lemma analysis_winner:
  assumes an: "analyze_convergence exact_integral f a b methods n_values = Inr res"
  shows "methods \<noteq> []"
    and "\<forall>m \<in> set methods. \<exists>rs. map_of (results res) m = Some rs \<and> rs \<noteq> []
                  \<and> rec_n (last rs) = Max (set n_values)"
    and "\<exists>i < length methods. methods ! i = winner res
           \<and> (\<forall>j < length methods. final_error res (winner res) \<le> final_error res (methods ! j))
           \<and> (\<forall>j < i. final_error res (winner res) < final_error res (methods ! j))"
proof -
  obtain exact_val exact_err where ex: "exact_integral f a b = (exact_val, exact_err)"
    by (cases "exact_integral f a b")
  from an obtain fe where
    loop: "method_loop f a b exact_val n_values methods [] = Inr (results res)"
    and fe: "final_errors (results res) = Inr fe"
    and best: "py_min (map fst fe) (\<lambda>method. the (map_of fe method)) = Inr (winner res)"
    by (auto simp: analyze_convergence_def ex split: sum.splits)
  note keys = method_loop_keys_empty[OF loop]
  note fel = final_errors_lookup[OF fe]
  have full: "\<not> (\<exists>(method, method_results) \<in> set (results res). method_results = [])"
    using fe by (auto simp: final_errors_def split: if_splits)
  have found: "\<exists>rs. map_of (results res) m = Some rs \<and> rs \<noteq> []
                  \<and> rec_n (last rs) = Max (set n_values)"
    if "m \<in> set methods" for m
  proof -
    from method_loop_lookup[OF loop, of m] that obtain rs where
      rs: "n_loop f a b m exact_val None (sort n_values) = Inr rs" "map_of (results res) m = Some rs"
      by auto
    have "(m, rs) \<in> set (results res)" using rs(2) by (rule map_of_SomeD)
    then have ne: "rs \<noteq> []" using full by auto
    have ns: "map rec_n rs = sort n_values"
      using n_loop_records[OF rs(1)] by simp
    then have "sort n_values \<noteq> []" using ne by auto
    then have "last (sort n_values) = Max (set (sort n_values))"
      by (intro sorted_last_Max) simp_all
    moreover have "rec_n (last rs) = last (sort n_values)"
      using ns ne by (metis last_map)
    ultimately show ?thesis using rs(2) ne by simp
  qed
  then show "\<forall>m \<in> set methods. \<exists>rs. map_of (results res) m = Some rs \<and> rs \<noteq> []
                  \<and> rec_n (last rs) = Max (set n_values)"
    by blast
  have key: "the (map_of fe m) = final_error res m" if "m \<in> set methods" for m
  proof -
    from found[OF that] obtain rs where rs: "map_of (results res) m = Some rs" by blast
    then show ?thesis using fel(2)[OF rs] by (simp add: final_error_def)
  qed
  from py_min_first[OF best] obtain pre post where
    split: "map fst (results res) = pre @ winner res # post"
    and before: "\<forall>k \<in> set pre. the (map_of fe (winner res)) < the (map_of fe k)"
    and after: "\<forall>k \<in> set post. the (map_of fe (winner res)) \<le> the (map_of fe k)"
    unfolding fel(1) by blast
  have sets: "set methods = set (pre @ winner res # post)"
    using keys(1) by (simp only: split)
  then show "methods \<noteq> []" by auto
  obtain pre' post' where ms: "methods = pre' @ winner res # post'" "set pre' \<subseteq> set pre"
    using keys(3)[OF split] by blast
  have le: "final_error res (winner res) \<le> final_error res m" if "m \<in> set methods" for m
  proof -
    have "the (map_of fe (winner res)) \<le> the (map_of fe m)"
      using that sets before after by auto
    moreover have "winner res \<in> set methods" using sets by simp
    ultimately show ?thesis using key that by simp
  qed
  have lt: "final_error res (winner res) < final_error res m" if "m \<in> set pre'" for m
  proof -
    have "m \<in> set methods" "winner res \<in> set methods" using that ms by auto
    moreover have "the (map_of fe (winner res)) < the (map_of fe m)" using that ms before by auto
    ultimately show ?thesis using key by simp
  qed
  have i1: "length pre' < length methods" "methods ! length pre' = winner res"
    by (simp_all add: ms(1))
  have i2: "final_error res (winner res) \<le> final_error res (methods ! j)"
    if "j < length methods" for j
    using le that by simp
  have i3: "final_error res (winner res) < final_error res (methods ! j)"
    if "j < length pre'" for j
  proof -
    have "methods ! j = pre' ! j" using that by (simp add: ms(1) nth_append)
    then show ?thesis using lt that by simp
  qed
  show "\<exists>i < length methods. methods ! i = winner res
           \<and> (\<forall>j < length methods. final_error res (winner res) \<le> final_error res (methods ! j))
           \<and> (\<forall>j < i. final_error res (winner res) < final_error res (methods ! j))"
    using i1 i2 i3 by blast
qed






subsection \<open>The order of convergence\<close>

lemma analyze_convergence_results:
  assumes "analyze_convergence exact_integral f a b methods n_values = Inr res"
    and "(m, rs) \<in> set (results res)"
  shows "n_loop f a b m (exact_value res) None (sort n_values) = Inr rs"
proof -
  obtain exact_val exact_err where ex: "exact_integral f a b = (exact_val, exact_err)"
    by (cases "exact_integral f a b")
  from assms(1) have loop: "method_loop f a b exact_val n_values methods [] = Inr (results res)"
    and exv: "exact_value res = exact_val"
    by (auto simp: analyze_convergence_def ex split: sum.splits)
  note keys = method_loop_keys_empty[OF loop]
  have "map_of (results res) m = Some rs" using assms(2) keys(2) by simp
  moreover have "m \<in> set (map fst (results res))" using assms(2) by force
  ultimately show ?thesis
    using method_loop_lookup[OF loop, of m] keys(1) exv by auto
qed

text \<open>
  C3. In every list of records that the analysis returns for a method, the counts are
  the sorted requested ones, each absolute error is \<open>|approx - exact|\<close>, the first
  record has no order of convergence, and every later record, at a count \<open>n2\<close> above
  the count \<open>n1\<close> of the record before it, has the order \<open>ln(E1/E2) / ln(n2/n1)\<close> of
  the two absolute errors, and none when either error is exactly zero.
\<close>

theorem eoc_of_consecutive_errors:
  assumes "analyze_convergence exact_integral f a b methods n_values = Inr res"
    and "(m, rs) \<in> set (results res)"
  shows "map rec_n rs = sort n_values
         \<and> (\<forall>r \<in> set rs. rec_abs_error r = \<bar>rec_approx r - exact_value res\<bar>)
         \<and> (rs \<noteq> [] \<longrightarrow> rec_eoc (hd rs) = None)
         \<and> (\<forall>i. Suc i < length rs \<and> rec_n (rs ! i) < rec_n (rs ! Suc i) \<longrightarrow>
               rec_eoc (rs ! Suc i) =
                 (if rec_abs_error (rs ! i) = 0 \<or> rec_abs_error (rs ! Suc i) = 0 then None
                  else Some (ln (rec_abs_error (rs ! i) / rec_abs_error (rs ! Suc i))
                             / ln (real_of_int (rec_n (rs ! Suc i)) / real_of_int (rec_n (rs ! i))))))"
proof -
  note loop = analyze_convergence_results[OF assms]
  have "map rec_n rs = sort n_values"
    and "\<forall>r \<in> set rs. rec_abs_error r = \<bar>rec_approx r - exact_value res\<bar>"
    using n_loop_records[OF loop] by simp_all
  moreover have "rs \<noteq> [] \<longrightarrow> rec_eoc (hd rs) = None"
    using n_loop_eoc[OF loop] by simp
  moreover have "\<forall>i. Suc i < length rs \<longrightarrow>
            rec_eoc (rs ! Suc i) = calculate_eoc (rec_abs_error (rs ! i)) (rec_abs_error (rs ! Suc i))
                                      (rec_n (rs ! i)) (rec_n (rs ! Suc i))"
    using n_loop_eoc[OF loop] by simp
  ultimately show ?thesis
    by (simp add: calculate_eoc_def)
qed

lemma trapezoidal_square_1: "trapezoidal_rule (\<lambda>x. x * x) 0 6 1 = Inr 108"
  by code_simp

lemma trapezoidal_square_2: "trapezoidal_rule (\<lambda>x. x * x) 0 6 2 = Inr 81"
  by code_simp

lemma analyze_square:
  "analyze_convergence (\<lambda>f a b. (72, 0)) (\<lambda>x. x * x) 0 6 [Trapezoidal] [2, 1]
     = Inr \<lparr>exact_value = 72,
            results = [(Trapezoidal,
              [\<lparr>rec_n = 1, rec_h = 6, rec_approx = 108, rec_abs_error = 36,
                rec_rel_error = Some (1 / 2), rec_eoc = None\<rparr>,
               \<lparr>rec_n = 2, rec_h = 3, rec_approx = 81, rec_abs_error = 9,
                rec_rel_error = Some (1 / 8), rec_eoc = Some (ln 4 / ln 2)\<rparr>])],
            winner = Trapezoidal\<rparr>"
  by (simp add: analyze_convergence_def final_errors_def trapezoidal_square_1 trapezoidal_square_2
        calculate_errors_def calculate_eoc_def Let_def)

theorem eoc_of_consecutive_errors_witness:
  "analyze_convergence (\<lambda>f a b. (72, 0)) (\<lambda>x. x * x) 0 6 [Trapezoidal] [2, 1]
     = Inr \<lparr>exact_value = 72,
            results = [(Trapezoidal,
              [\<lparr>rec_n = 1, rec_h = 6, rec_approx = 108, rec_abs_error = 36,
                rec_rel_error = Some (1 / 2), rec_eoc = None\<rparr>,
               \<lparr>rec_n = 2, rec_h = 3, rec_approx = 81, rec_abs_error = 9,
                rec_rel_error = Some (1 / 8), rec_eoc = Some (ln 4 / ln 2)\<rparr>])],
            winner = Trapezoidal\<rparr>
   \<and> Some (ln 4 / ln 2) = Some (ln (36 / 9) / ln (real_of_int 2 / real_of_int 1))"
  using eoc_of_consecutive_errors [OF analyze_square, of Trapezoidal
     "[\<lparr>rec_n = 1, rec_h = 6, rec_approx = 108, rec_abs_error = 36,
                rec_rel_error = Some (1 / 2), rec_eoc = None\<rparr>,
               \<lparr>rec_n = 2, rec_h = 3, rec_approx = 81, rec_abs_error = 9,
                rec_rel_error = Some (1 / 8), rec_eoc = Some (ln 4 / ln 2)\<rparr>]"]
  by (simp add: analyze_square)


subsection \<open>Simpson's coercion of an odd count\<close>

text \<open>
  C1, as amended. For an odd count \<open>n \<ge> 1\<close>, Simpson's rule computes with the
  coerced even count \<open>n + 1\<close>, so with \<open>h = (b - a) / (n + 1)\<close>. The records of the
  analysis report the caller's counts, not the adjusted ones: when Simpson's method is
  requested it has a list of records; the counts of that list are exactly the sorted
  requested counts; every record has \<open>h = (b - a) / n\<close> for its own \<open>n\<close>; so a request
  for the odd count has a record with that \<open>n\<close>, and every such record has
  \<open>h = (b - a) / n\<close> and holds the approximation computed with \<open>n + 1\<close>.
\<close>

theorem simpson_coerces_but_records_report_request:
  assumes "1 \<le> n" "n mod 2 \<noteq> 0"
  shows "simpsons_rule f a b n = simpsons_rule f a b (n + 1)
         \<and> simpsons_rule f a b n =
             Inr (((b - a) / real_of_int (n + 1)) / 3 *
                  (f a + 4 * (\<Sum>i \<in> {i \<in> {1..<nat (n + 1)}. (i - 1) mod 2 = 0}.
                                  f (a + real i * ((b - a) / real_of_int (n + 1))))
                       + 2 * (\<Sum>i \<in> {i \<in> {2..<nat (n + 1)}. (i - 2) mod 2 = 0}.
                                  f (a + real i * ((b - a) / real_of_int (n + 1))))
                       + f b))
         \<and> (analyze_convergence exact_integral f a b methods n_values = Inr res
              \<and> Simpson \<in> set methods
            \<longrightarrow> (\<exists>rs. (Simpson, rs) \<in> set (results res)))
         \<and> (analyze_convergence exact_integral f a b methods n_values = Inr res
              \<and> (Simpson, rs) \<in> set (results res)
            \<longrightarrow> map rec_n rs = sort n_values
                \<and> (\<forall>r \<in> set rs. rec_h r = (b - a) / real_of_int (rec_n r))
                \<and> (n \<in> set n_values \<longrightarrow> (\<exists>r \<in> set rs. rec_n r = n))
                \<and> (\<forall>r \<in> set rs. rec_n r = n \<longrightarrow>
                       rec_n r \<noteq> n + 1
                       \<and> rec_h r = (b - a) / real_of_int n
                       \<and> simpsons_rule f a b (n + 1) = Inr (rec_approx r)))"
proof -
  have even: "1 \<le> n + 1" "(n + 1) mod 2 = 0" using assms by presburger+
  have coerce: "simpsons_rule f a b n = simpsons_rule f a b (n + 1)"
    using assms(2) by (rule simpsons_rule_coerce)
  have listed: "\<exists>rs. (Simpson, rs) \<in> set (results res)"
    if an: "analyze_convergence exact_integral f a b methods n_values = Inr res"
      and m: "Simpson \<in> set methods"
  proof -
    from analysis_winner(2)[OF an] m obtain rs where "map_of (results res) Simpson = Some rs"
      by blast
    then have "(Simpson, rs) \<in> set (results res)" by (rule map_of_SomeD)
    then show ?thesis by blast
  qed
  have report: "map rec_n rs = sort n_values
                \<and> (\<forall>r \<in> set rs. rec_h r = (b - a) / real_of_int (rec_n r))
                \<and> (n \<in> set n_values \<longrightarrow> (\<exists>r \<in> set rs. rec_n r = n))
                \<and> (\<forall>r \<in> set rs. rec_n r = n \<longrightarrow>
                       rec_n r \<noteq> n + 1
                       \<and> rec_h r = (b - a) / real_of_int n
                       \<and> simpsons_rule f a b (n + 1) = Inr (rec_approx r))"
    if an: "analyze_convergence exact_integral f a b methods n_values = Inr res"
      and rs: "(Simpson, rs) \<in> set (results res)"
  proof -
    note recs = n_loop_records[OF analyze_convergence_results[OF an rs]]
    have counts: "map rec_n rs = sort n_values" using recs by simp
    have steps: "\<forall>r \<in> set rs. rec_h r = (b - a) / real_of_int (rec_n r)"
      using recs by simp
    have present: "\<exists>r \<in> set rs. rec_n r = n" if "n \<in> set n_values"
    proof -
      have "n \<in> set (map rec_n rs)" using that counts by simp
      then show ?thesis by auto
    qed
    have each: "rec_n r \<noteq> n + 1 \<and> rec_h r = (b - a) / real_of_int n
                  \<and> simpsons_rule f a b (n + 1) = Inr (rec_approx r)"
      if "r \<in> set rs" "rec_n r = n" for r
      using recs that coerce by auto
    show ?thesis using counts steps present each by blast
  qed
  show ?thesis
    using coerce simpsons_rule_sum[OF even, of f a b] listed report by simp
qed

lemma simpson_identity_5: "simpsons_rule (\<lambda>x. x) 0 6 5 = Inr 18"
  by code_simp

lemma analyze_identity_5:
  "analyze_convergence (\<lambda>f a b. (18, 0)) (\<lambda>x. x) 0 6 [Simpson] [5]
     = Inr \<lparr>exact_value = 18,
            results = [(Simpson, [\<lparr>rec_n = 5, rec_h = 6 / 5, rec_approx = 18, rec_abs_error = 0,
                                    rec_rel_error = Some 0, rec_eoc = None\<rparr>])],
            winner = Simpson\<rparr>"
  by (simp add: analyze_convergence_def final_errors_def simpson_identity_5 calculate_errors_def)

theorem simpson_coerces_but_records_report_request_witness:
  "(1::int) \<le> 5 \<and> (5::int) mod 2 \<noteq> 0
   \<and> simpsons_rule (\<lambda>x. x) 0 6 5 = simpsons_rule (\<lambda>x. x) 0 6 (5 + 1)
   \<and> analyze_convergence (\<lambda>f a b. (18, 0)) (\<lambda>x. x) 0 6 [Simpson] [5]
     = Inr \<lparr>exact_value = 18,
            results = [(Simpson, [\<lparr>rec_n = 5, rec_h = 6 / 5, rec_approx = 18, rec_abs_error = 0,
                                    rec_rel_error = Some 0, rec_eoc = None\<rparr>])],
            winner = Simpson\<rparr>
   \<and> Simpson \<in> set [Simpson] \<and> (5::int) \<in> set [5]
   \<and> map rec_n [\<lparr>rec_n = 5, rec_h = 6 / 5, rec_approx = 18, rec_abs_error = 0,
                   rec_rel_error = Some 0, rec_eoc = None\<rparr>] = sort [5]
   \<and> simpsons_rule (\<lambda>x. x) 0 6 (5 + 1) = Inr 18"
  using simpson_coerces_but_records_report_request
     [of 5 "\<lambda>x. x" 0 6 "\<lambda>f a b. (18, 0)" "[Simpson]" "[5]"
     "\<lparr>exact_value = 18,
            results = [(Simpson, [\<lparr>rec_n = 5, rec_h = 6 / 5, rec_approx = 18, rec_abs_error = 0,
                                    rec_rel_error = Some 0, rec_eoc = None\<rparr>])],
            winner = Simpson\<rparr>"
     "[\<lparr>rec_n = 5, rec_h = 6 / 5, rec_approx = 18, rec_abs_error = 0,
                                    rec_rel_error = Some 0, rec_eoc = None\<rparr>]"]
  by (simp add: analyze_identity_5)

text \<open>
  C1, as stated, fails: for a request with \<open>n = 5\<close> on \<open>[0, 6]\<close> the record reports
  \<open>n = 5\<close> and \<open>h = 6/5\<close>, not the adjusted \<open>n = 6\<close> and \<open>h = (6 - 0)/6\<close>.
\<close>

theorem reported_n_not_adjusted_counterexample:
  "analyze_convergence (\<lambda>f a b. (18, 0)) (\<lambda>x. x) 0 6 [Simpson] [5]
     = Inr \<lparr>exact_value = 18,
            results = [(Simpson, [\<lparr>rec_n = 5, rec_h = 6 / 5, rec_approx = 18, rec_abs_error = 0,
                                    rec_rel_error = Some 0, rec_eoc = None\<rparr>])],
            winner = Simpson\<rparr>
   \<and> (5::int) \<noteq> 5 + 1 \<and> (6 / 5 :: real) \<noteq> (6 - 0) / real_of_int (5 + 1)"
  by (simp add: analyze_convergence_def final_errors_def simpson_identity_5 calculate_errors_def)

end
